theory Spec2Isabelle
  imports Complex_Main "HOL-Library.Word" "HOL-Library.Sublist"
begin

unbundle bit_operations_syntax

section \<open>Values of the platform\<close>

text \<open>
  The route handler \<^verbatim>\<open>app/api/analyze-video/route.ts\<close>, which streams the answer of the
  provider, and its variant that returns the whole answer at once are embedded as HOL
  functions. Strings are \<open>string\<close>; a byte of a \<^verbatim>\<open>Uint8Array\<close> or \<^verbatim>\<open>Buffer\<close> is an
  \<open>8 word\<close>; a thrown value is the message it carries and what \<^verbatim>\<open>String(err)\<close> prints
  for it.
\<close>

type_synonym byte = "8 word"

datatype js_error = JsError (message: string) (rendering: string)

subsection \<open>Strings\<close>

text \<open>
  \<^verbatim>\<open>String.prototype.trim\<close> removes white space and line terminators from both ends.
  Of the code units a \<open>char\<close> can hold these are TAB, LF, VT, FF, CR, SP and NBSP.
\<close>

definition isWhiteSpace :: "char \<Rightarrow> bool" where
  "isWhiteSpace c = (of_char c \<in> {9, 10, 11, 12, 13, 32, 160 :: nat})"

definition trim :: "string \<Rightarrow> string" where
  "trim s = rev (dropWhile isWhiteSpace (rev (dropWhile isWhiteSpace s)))"

text \<open>\<^verbatim>\<open>s.split("\n")\<close>: the pieces between the line feeds, at least one piece.\<close>

fun split_nl :: "string \<Rightarrow> string list" where
  "split_nl [] = [[]]"
| "split_nl (c # cs) =
     (if c = CHR 0x0A then [] # split_nl cs
      else (case split_nl cs of p # ps \<Rightarrow> (c # p) # ps | [] \<Rightarrow> [[c]]))"

text \<open>\<^verbatim>\<open>parts.join("\n")\<close>.\<close>

fun join_nl :: "string list \<Rightarrow> string" where
  "join_nl [] = []"
| "join_nl [p] = p"
| "join_nl (p # q # ps) = p @ CHR 0x0A # join_nl (q # ps)"

text \<open>The decimal digits of a number, as a template literal prints it.\<close>

fun decimal :: "nat \<Rightarrow> string" where
  "decimal n =
     (if n < 10 then [char_of (48 + n)]
      else decimal (n div 10) @ [char_of (48 + n mod 10)])"

subsection \<open>Base64\<close>

text \<open>
  \<^verbatim>\<open>buffer.toString("base64")\<close>: the alphabet of RFC 4648, three bytes to four characters,
  the last group padded with \<^verbatim>\<open>=\<close>.
\<close>

definition b64_alphabet :: string where
  "b64_alphabet = ''ABCDEFGHIJKLMNOPQRSTUVWXYZabcdefghijklmnopqrstuvwxyz0123456789+/''"

definition b64_char :: "nat \<Rightarrow> char" where
  "b64_char i = b64_alphabet ! i"

fun toString_base64 :: "byte list \<Rightarrow> string" where
  "toString_base64 [] = []"
| "toString_base64 [a] =
     [b64_char (unat a div 4), b64_char (unat a mod 4 * 16), CHR ''='', CHR ''='']"
| "toString_base64 [a, b] =
     [b64_char (unat a div 4), b64_char (unat a mod 4 * 16 + unat b div 16),
      b64_char (unat b mod 16 * 4), CHR ''='']"
| "toString_base64 (a # b # c # rest) =
     [b64_char (unat a div 4), b64_char (unat a mod 4 * 16 + unat b div 16),
      b64_char (unat b mod 16 * 4 + unat c div 64), b64_char (unat c mod 64)]
     @ toString_base64 rest"

text \<open>
  The decoder a reader of the data URL applies (RFC 4648, section 4): four characters to
  three bytes; padding is accepted in the last group only; any other character fails.
\<close>

fun index_of :: "'a \<Rightarrow> 'a list \<Rightarrow> nat option" where
  "index_of x [] = None"
| "index_of x (y # ys) = (if x = y then Some 0 else map_option Suc (index_of x ys))"

definition b64_index :: "char \<Rightarrow> nat option" where
  "b64_index c = index_of c b64_alphabet"

fun base64_decode :: "string \<Rightarrow> byte list option" where
  "base64_decode [] = Some []"
| "base64_decode (w # x # y # z # rest) =
     (case (b64_index w, b64_index x) of
        (Some i, Some j) \<Rightarrow>
          (if y = CHR ''='' \<and> z = CHR ''='' \<and> rest = [] then
             Some [of_nat (i * 4 + j div 16)]
           else (case b64_index y of
             None \<Rightarrow> None
           | Some k \<Rightarrow>
               (if z = CHR ''='' \<and> rest = [] then
                  Some [of_nat (i * 4 + j div 16), of_nat (j mod 16 * 16 + k div 4)]
                else (case (b64_index z, base64_decode rest) of
                  (Some l, Some bs) \<Rightarrow>
                    Some (of_nat (i * 4 + j div 16) # of_nat (j mod 16 * 16 + k div 4)
                          # of_nat (k mod 4 * 64 + l) # bs)
                | _ \<Rightarrow> None))))
      | _ \<Rightarrow> None)"
| "base64_decode _ = None"

section \<open>The route handler\<close>

subsection \<open>The request\<close>

text \<open>
  A \<^verbatim>\<open>File\<close> has a declared content type and its bytes; \<^verbatim>\<open>file.size\<close> is the number of
  bytes \<^verbatim>\<open>file.arrayBuffer()\<close> delivers.
\<close>

record File =
  type :: string
  bytes :: "byte list"

definition file_size :: "File \<Rightarrow> nat" where
  "file_size f = length (bytes f)"

text \<open>A form field is a file or a string; \<^verbatim>\<open>formData.get\<close> returns the first entry of a
  name, or \<^verbatim>\<open>null\<close>.\<close>

datatype FormDataEntryValue = FileValue File | StringValue string

type_synonym FormData = "(string \<times> FormDataEntryValue) list"

definition formData_get :: "FormData \<Rightarrow> string \<Rightarrow> FormDataEntryValue option" where
  "formData_get fd name = map_of fd name"

text \<open>Truthiness of a form value: \<^verbatim>\<open>null\<close> and the empty string are falsy, a file
  object is truthy.\<close>

fun truthy :: "FormDataEntryValue option \<Rightarrow> bool" where
  "truthy None = False"
| "truthy (Some (StringValue s)) = (s \<noteq> [])"
| "truthy (Some (FileValue f)) = True"

text \<open>\<^verbatim>\<open>(formData.get(name) || "").toString().trim()\<close>; a file object prints as
  \<^verbatim>\<open>[object File]\<close>.\<close>

fun field_text :: "FormDataEntryValue option \<Rightarrow> string" where
  "field_text None = trim []"
| "field_text (Some (StringValue s)) = trim s"
| "field_text (Some (FileValue f)) = trim ''[object File]''"

subsection \<open>The upstream call\<close>

text \<open>The JSON body sent to the provider, and the \<^verbatim>\<open>fetch\<close> call that carries it.\<close>

datatype content_part = Text_part string | Input_video string

record message =
  role :: string
  content :: "content_part list"

record request_body =
  model :: string
  messages :: "message list"
  stream :: bool

record fetch_call =
  url :: string
  http_method :: string
  headers :: "(string \<times> string) list"
  body :: request_body

text \<open>
  The body of the upstream response, as its reader delivers it: the chunks, then either
  the end of the stream or a rejected \<^verbatim>\<open>read()\<close>.
\<close>

datatype read_end = Done | ReadError js_error

record upstream_body =
  chunks :: "byte list list"
  ending :: read_end

text \<open>
  The upstream response: its status, what \<^verbatim>\<open>text()\<close> resolves to (\<open>Inl\<close> when it
  rejects), and its body (\<open>None\<close> for a \<^verbatim>\<open>null\<close> body).
\<close>

record upstream_response =
  status :: nat
  text_result :: "js_error + string"
  body_stream :: "upstream_body option"

definition ok :: "upstream_response \<Rightarrow> bool" where
  "ok r = (200 \<le> status r \<and> status r \<le> 299)"

text \<open>
  What a request meets when it runs: the environment variable, the outcome of
  \<^verbatim>\<open>req.formData()\<close>, the \<^verbatim>\<open>referer\<close> header, whether \<^verbatim>\<open>new URL(s)\<close> accepts a string,
  and what \<^verbatim>\<open>fetch\<close> does with a call (it rejects, or resolves to a response).
\<close>

record request =
  OPENROUTER_API_KEY :: "string option"
  formData :: "js_error + FormData"
  referer :: "string option"
  URL_parses :: "string \<Rightarrow> bool"
  fetch :: "fetch_call \<Rightarrow> js_error + upstream_response"

subsection \<open>The response\<close>

text \<open>
  \<^verbatim>\<open>NextResponse.json({error, details?}, {status})\<close>, or the streamed response with its
  headers and the upstream body its \<^verbatim>\<open>ReadableStream\<close> pumps.
\<close>

datatype response =
  Json (http_status: nat) (error: string) (details: "string option")
| Stream "(string \<times> string) list" "upstream_body option"

text \<open>What the handler did to the outside on the way, in order.\<close>

datatype effect = ReadFormData | Fetch fetch_call

record outcome =
  response :: response
  effects :: "effect list"

subsection \<open>The handler\<close>

text \<open>
  \<^verbatim>\<open>POST\<close> of \<^verbatim>\<open>route.ts\<close>, in the order of its lines. Reading the bytes of an uploaded file
  is taken to succeed, and the request body is kept as a record where the code sends its
  \<^verbatim>\<open>JSON.stringify\<close>.
\<close>

definition MODEL :: string where
  "MODEL = ''google/gemini-2.5-flash-lite''"

definition OPENROUTER_URL :: string where
  "OPENROUTER_URL = ''https://openrouter.ai/api/v1/chat/completions''"

definition fileToDataUrl :: "File \<Rightarrow> string" where
  "fileToDataUrl file =
     (let buffer = bytes file;
          mime = (if type file \<noteq> [] then type file else ''video/mp4'');
          base64 = toString_base64 buffer
      in ''data:'' @ mime @ '';base64,'' @ base64)"

definition maxBytes :: nat where
  "maxBytes = 100 * 1024 * 1024"

text \<open>
  Lines 41 to 77 of the handler: the value of \<^verbatim>\<open>videoUrl\<close> after the two branches
  (\<open>None\<close> for \<^verbatim>\<open>null\<close>), or the response returned early.
\<close>

definition videoUrl :: "(string \<Rightarrow> bool) \<Rightarrow> FormDataEntryValue option \<Rightarrow> string \<Rightarrow> response + string option"
  where
  "videoUrl parses fileInput urlInput =
     (case fileInput of
        Some (FileValue f) \<Rightarrow>
          (if file_size f = 0 then
             Inl (Json 400 ''Uploaded video file is empty.'' None)
           else if file_size f > maxBytes then
             Inl (Json 413
               ''Video too large. Please compress or trim below 100MB before uploading.'' None)
           else Inr (Some (fileToDataUrl f)))
      | _ \<Rightarrow>
          (if urlInput \<noteq> [] then
             (if \<not> parses urlInput then Inl (Json 400 ''Invalid video URL provided.'' None)
              else Inr (Some urlInput))
           else Inr None))"

text \<open>Lines 79 to 84: \<^verbatim>\<open>if (!videoUrl)\<close>, for \<^verbatim>\<open>null\<close> and for the empty string.\<close>

definition resolved :: "string option \<Rightarrow> response + string" where
  "resolved v =
     (case v of
        None \<Rightarrow> Inl (Json 400 ''Unable to resolve video input.'' None)
      | Some u \<Rightarrow>
          if u = [] then Inl (Json 400 ''Unable to resolve video input.'' None) else Inr u)"

definition baseInstruction :: string where
  "baseInstruction =
     ''You are an expert video analysis system. Provide a structured, detailed analysis of the provided video. '' @
     ''Include: (1) clear summary, (2) timeline/scene breakdown where relevant with approximate timestamps if inferable, '' @
     ''(3) domain-specific insights (e.g., coaching, marketing hooks, storytelling, UX, security), '' @
     ''(4) concise bullet-point recommendations.''"

definition defaultSuffix :: string where
  "defaultSuffix =
     '' If no additional focus is provided, infer the most valuable insights for a professional audience.''"

definition mergedPrompt :: "string \<Rightarrow> string" where
  "mergedPrompt focusPrompt =
     baseInstruction @
     (if focusPrompt \<noteq> [] then
        '' The user has an additional focus: '' @ [CHR 0x22] @ focusPrompt @ [CHR 0x22] @
        ''. Prioritize this focus in your analysis while still covering core observations.''
      else defaultSuffix)"

definition fetch_init :: "string \<Rightarrow> string option \<Rightarrow> string \<Rightarrow> string \<Rightarrow> fetch_call" where
  "fetch_init apiKey ref prompt video =
     \<lparr> url = OPENROUTER_URL,
       http_method = ''POST'',
       headers =
         [(''Authorization'', ''Bearer '' @ apiKey),
          (''Content-Type'', ''application/json''),
          (''HTTP-Referer'', (case ref of None \<Rightarrow> [] | Some r \<Rightarrow> r)),
          (''X-Title'', ''Video-Or AI Video Analysis'')],
       body =
         \<lparr> model = MODEL,
           messages = [\<lparr> role = ''user'', content = [Text_part prompt, Input_video video] \<rparr>],
           stream = True \<rparr> \<rparr>"

text \<open>The \<^verbatim>\<open>catch\<close> of the handler: \<^verbatim>\<open>err?.message || String(err)\<close>.\<close>

definition unexpected :: "js_error \<Rightarrow> response" where
  "unexpected err =
     Json 500 ''Unexpected server error while analyzing video.''
       (Some (if message err \<noteq> [] then message err else rendering err))"

definition stream_headers :: "(string \<times> string) list" where
  "stream_headers =
     [(''Content-Type'', ''text/event-stream''),
      (''Cache-Control'', ''no-cache''),
      (''Connection'', ''keep-alive'')]"

text \<open>Lines 131 to 141: the response to a provider status outside 200 to 299.\<close>

definition upstream_failed :: "upstream_response \<Rightarrow> response" where
  "upstream_failed res =
     (let errText = (case text_result res of Inl e \<Rightarrow> [] | Inr t \<Rightarrow> t)
      in Json 502 ''OpenRouter request failed. Check model/video compatibility and limits.''
           (Some (if errText \<noteq> [] then errText else ''Status '' @ decimal (status res))))"

text \<open>Lines 86 to 176: the call to the provider and the response built from its answer.\<close>

definition forward :: "request \<Rightarrow> string \<Rightarrow> string \<Rightarrow> string \<Rightarrow> outcome" where
  "forward req apiKey focusPrompt video =
     (let call = fetch_init apiKey (referer req) (mergedPrompt focusPrompt) video
      in (case fetch req call of
            Inl err \<Rightarrow> \<lparr> response = unexpected err, effects = [ReadFormData, Fetch call] \<rparr>
          | Inr openrouterRes \<Rightarrow>
              if \<not> ok openrouterRes then
                \<lparr> response = upstream_failed openrouterRes,
                  effects = [ReadFormData, Fetch call] \<rparr>
              else
                \<lparr> response = Stream stream_headers (body_stream openrouterRes),
                  effects = [ReadFormData, Fetch call] \<rparr>))"

definition misconfigured :: outcome where
  "misconfigured =
     \<lparr> response = Json 500 ''Server misconfigured: OPENROUTER_API_KEY is missing.'' None,
       effects = [] \<rparr>"

definition POST :: "request \<Rightarrow> outcome" where
  "POST req =
     (case OPENROUTER_API_KEY req of
        None \<Rightarrow> misconfigured
      | Some apiKey \<Rightarrow>
          if apiKey = [] then misconfigured
          else
            (case formData req of
               Inl err \<Rightarrow> \<lparr> response = unexpected err, effects = [ReadFormData] \<rparr>
             | Inr fd \<Rightarrow>
                 (let focusPrompt = field_text (formData_get fd ''focusPrompt'');
                      urlInput = field_text (formData_get fd ''videoUrl'');
                      fileInput = formData_get fd ''video''
                  in if \<not> truthy fileInput \<and> urlInput = [] then
                       \<lparr> response = Json 400 ''Provide a video file or a video URL.'' None,
                         effects = [ReadFormData] \<rparr>
                     else
                       (case videoUrl (URL_parses req) fileInput urlInput of
                          Inl early \<Rightarrow> \<lparr> response = early, effects = [ReadFormData] \<rparr>
                        | Inr v \<Rightarrow>
                            (case resolved v of
                               Inl early \<Rightarrow> \<lparr> response = early, effects = [ReadFormData] \<rparr>
                             | Inr video \<Rightarrow> forward req apiKey focusPrompt video)))))"

subsection \<open>The error responses by name\<close>

text \<open>The responses the handler returns early, under the names of the error taxonomy.\<close>

definition ServerMisconfigured :: response where
  "ServerMisconfigured = Json 500 ''Server misconfigured: OPENROUTER_API_KEY is missing.'' None"

definition MissingInput :: response where
  "MissingInput = Json 400 ''Provide a video file or a video URL.'' None"

definition EmptyFile :: response where
  "EmptyFile = Json 400 ''Uploaded video file is empty.'' None"

definition TooLarge :: response where
  "TooLarge =
     Json 413 ''Video too large. Please compress or trim below 100MB before uploading.'' None"

definition InvalidUrl :: response where
  "InvalidUrl = Json 400 ''Invalid video URL provided.'' None"

definition Unresolved :: response where
  "Unresolved = Json 400 ''Unable to resolve video input.'' None"

subsection \<open>Example requests\<close>

text \<open>A provider that cannot be reached, and one that answers every call the same way.\<close>

definition offline :: "fetch_call \<Rightarrow> js_error + upstream_response" where
  "offline call = Inl (JsError ''fetch failed'' ''TypeError: fetch failed'')"

definition answers :: "upstream_response \<Rightarrow> fetch_call \<Rightarrow> js_error + upstream_response" where
  "answers res call = Inr res"

definition example_request ::
  "FormData \<Rightarrow> (fetch_call \<Rightarrow> js_error + upstream_response) \<Rightarrow> request" where
  "example_request fd f =
     \<lparr> OPENROUTER_API_KEY = Some ''sk-or-test'', formData = Inr fd, referer = None,
       URL_parses = (\<lambda>s. s = ''https://example.com/clip.mp4''), fetch = f \<rparr>"

definition clip :: "byte list \<Rightarrow> File" where
  "clip bs = \<lparr> type = ''video/mp4'', bytes = bs \<rparr>"

subsection \<open>Phrases of the prompt\<close>

text \<open>The words by which the default suffix is recognised, and a focus text that quotes
  the whole default suffix.\<close>

definition defaultPhrase :: string where
  "defaultPhrase = ''infer the most valuable insights''"

definition adversarial_focus :: string where
  "adversarial_focus =
     ''note: If no additional focus is provided, infer the most valuable insights for a professional audience.''"

subsection \<open>Reading a data URL back\<close>

text \<open>
  What a reader of the data URL does with it: strip the prefix
  \<^verbatim>\<open>data:{mimeType};base64,\<close> and decode the remainder as base64.
\<close>

definition strip_prefix :: "string \<Rightarrow> string \<Rightarrow> string option" where
  "strip_prefix p s = (if prefix p s then Some (drop (length p) s) else None)"

definition dataUrl_bytes :: "string \<Rightarrow> string \<Rightarrow> byte list option" where
  "dataUrl_bytes mimeType dataUrl =
     (case strip_prefix (''data:'' @ mimeType @ '';base64,'') dataUrl of
        None \<Rightarrow> None
      | Some encoded \<Rightarrow> base64_decode encoded)"

section \<open>The route handler without streaming\<close>

text \<open>
  The variant of \<^verbatim>\<open>route.ts\<close> that asks the provider for the whole answer at once
  (\<^verbatim>\<open>stream: false\<close>), kept as the second document of \<^verbatim>\<open>next.config.mjs\<close>; the line
  numbers below are those of that file. Up to the call of the provider and the answer to
  a failed call it is the handler above, line for line. After a successful call it reads
  the JSON of the answer, takes the text of the first choice and splits it into a summary
  and details.
\<close>

subsection \<open>JSON values\<close>

text \<open>
  What \<^verbatim>\<open>JSON.parse\<close> returns: a number is the real number its double stands for, an
  object is the list of its own properties, each name once. A value of JavaScript is a
  \<open>json option\<close>, \<open>None\<close> for \<^verbatim>\<open>undefined\<close>.
\<close>

datatype json =
  JNull | JBool bool | JNumber real | JString string | JArray "json list"
| JObject "(string \<times> json) list"

text \<open>
  \<^verbatim>\<open>v.name\<close> and \<^verbatim>\<open>v[0]\<close> for a value that is neither \<^verbatim>\<open>null\<close> nor \<^verbatim>\<open>undefined\<close>. The names
  the handler reads are \<^verbatim>\<open>choices\<close>, \<^verbatim>\<open>message\<close>, \<^verbatim>\<open>content\<close> and \<^verbatim>\<open>text\<close>: only an object
  can have them, no prototype does. Index 0 of a string is its first character.
\<close>

fun property :: "json \<Rightarrow> string \<Rightarrow> json option" where
  "property (JObject members) name = map_of members name"
| "property v name = None"

fun element_0 :: "json \<Rightarrow> json option" where
  "element_0 (JArray elements) = (case elements of [] \<Rightarrow> None | v # rest \<Rightarrow> Some v)"
| "element_0 (JObject members) = map_of members ''0''"
| "element_0 (JString s) = (case s of [] \<Rightarrow> None | c # rest \<Rightarrow> Some (JString [c]))"
| "element_0 v = None"

text \<open>Optional chaining, \<^verbatim>\<open>v?.name\<close> and \<^verbatim>\<open>v?.[0]\<close>: \<^verbatim>\<open>undefined\<close> when \<open>v\<close> is \<^verbatim>\<open>null\<close> or
  \<^verbatim>\<open>undefined\<close>.\<close>

definition optional_chain :: "json option \<Rightarrow> (json \<Rightarrow> json option) \<Rightarrow> json option" where
  "optional_chain v access =
     (case v of None \<Rightarrow> None | Some JNull \<Rightarrow> None | Some object \<Rightarrow> access object)"

text \<open>Truthiness: \<^verbatim>\<open>undefined\<close>, \<^verbatim>\<open>null\<close>, \<^verbatim>\<open>false\<close>, zero and the empty string are falsy,
  every array and object is truthy.\<close>

fun truthy_json :: "json option \<Rightarrow> bool" where
  "truthy_json None = False"
| "truthy_json (Some JNull) = False"
| "truthy_json (Some (JBool b)) = b"
| "truthy_json (Some (JNumber n)) = (n \<noteq> 0)"
| "truthy_json (Some (JString s)) = (s \<noteq> [])"
| "truthy_json (Some (JArray elements)) = True"
| "truthy_json (Some (JObject members)) = True"

subsection \<open>The response\<close>

text \<open>
  The response is one that the streaming handler builds in the same way, or
  \<^verbatim>\<open>NextResponse.json({error: "No content returned from model.", raw: json}, {status: 502})\<close>,
  or \<^verbatim>\<open>NextResponse.json({summary, details})\<close>.
\<close>

record analysis =
  summary :: string
  details :: string

datatype analysis_response =
  Error_response response | No_content json | Analysis_result analysis

record outcome_nonstreaming =
  reply :: analysis_response
  reply_effects :: "effect list"

subsection \<open>The handler\<close>

text \<open>The call of the provider: that of the streaming handler with \<^verbatim>\<open>stream: false\<close>.\<close>

definition fetch_init_nonstreaming :: "string \<Rightarrow> string option \<Rightarrow> string \<Rightarrow> string \<Rightarrow> fetch_call"
  where
  "fetch_init_nonstreaming apiKey ref prompt video =
     \<lparr> url = OPENROUTER_URL,
       http_method = ''POST'',
       headers =
         [(''Authorization'', ''Bearer '' @ apiKey),
          (''Content-Type'', ''application/json''),
          (''HTTP-Referer'', (case ref of None \<Rightarrow> [] | Some r \<Rightarrow> r)),
          (''X-Title'', ''Video-Or AI Video Analysis'')],
       body =
         \<lparr> model = MODEL,
           messages = [\<lparr> role = ''user'', content = [Text_part prompt, Input_video video] \<rparr>],
           stream = False \<rparr> \<rparr>"

text \<open>The errors thrown by reading a property of \<^verbatim>\<open>null\<close> or \<^verbatim>\<open>undefined\<close> and by calling
  what is not a function.\<close>

definition reading_of_null :: js_error where
  "reading_of_null =
     JsError
       (''Cannot read properties of null (reading '' @ [CHR 0x27] @ ''choices'' @ [CHR 0x27] @ '')'')
       (''TypeError: Cannot read properties of null (reading '' @ [CHR 0x27] @ ''choices'' @
        [CHR 0x27] @ '')'')"

definition reading_of_undefined :: js_error where
  "reading_of_undefined =
     JsError
       (''Cannot read properties of undefined (reading '' @ [CHR 0x27] @ ''trim'' @ [CHR 0x27] @
        '')'')
       (''TypeError: Cannot read properties of undefined (reading '' @ [CHR 0x27] @ ''trim'' @
        [CHR 0x27] @ '')'')"

definition not_a_function :: js_error where
  "not_a_function =
     JsError ''contentText.split is not a function''
       ''TypeError: contentText.split is not a function''"

text \<open>
  Lines 155 to 158:
  \<^verbatim>\<open>json.choices?.[0]?.message?.content || json.choices?.[0]?.message?.content?.[0]?.text || ""\<close>.
  Reading \<^verbatim>\<open>choices\<close> of \<^verbatim>\<open>null\<close> throws.
\<close>

definition contentText :: "json \<Rightarrow> js_error + json option" where
  "contentText json =
     (case json of
        JNull \<Rightarrow> Inl reading_of_null
      | _ \<Rightarrow>
          (let content =
                 optional_chain
                   (optional_chain (optional_chain (property json ''choices'') element_0)
                      (\<lambda>choice. property choice ''message''))
                   (\<lambda>message. property message ''content'');
               text_0 =
                 optional_chain (optional_chain content element_0)
                   (\<lambda>part. property part ''text'')
           in Inr (if truthy_json content then content
                   else if truthy_json text_0 then text_0 else Some (JString []))))"

text \<open>
  Lines 160 to 180: without content the answer is the 502 response; else the content is
  split at the line feeds, which throws when it is not a string. The summary is the first
  line trimmed, or a fixed sentence; the details are the other lines joined and trimmed,
  or the whole content.
\<close>

definition summary_details :: "json \<Rightarrow> json option \<Rightarrow> analysis_response" where
  "summary_details json chosen =
     (if \<not> truthy_json chosen then No_content json
      else
        (case chosen of
           Some (JString raw) \<Rightarrow>
             (case split_nl raw of
                [] \<Rightarrow> Error_response (unexpected reading_of_undefined)
              | firstLine # rest \<Rightarrow>
                  Analysis_result
                    \<lparr> summary =
                        (if trim firstLine \<noteq> [] then trim firstLine
                         else ''AI analysis generated. See detailed breakdown below.''),
                      details =
                        (if trim (join_nl rest) \<noteq> [] then trim (join_nl rest) else raw) \<rparr>)
         | _ \<Rightarrow> Error_response (unexpected not_a_function)))"

text \<open>
  Lines 96 to 180: the call to the provider and the response built from its answer.
  \<^verbatim>\<open>openrouterRes.json()\<close> reads the text of the body and parses it; \<open>JSON_parse\<close> is what
  \<^verbatim>\<open>JSON.parse\<close> makes of a text (\<open>Inl\<close> when it throws).
\<close>

definition forward_nonstreaming ::
  "(string \<Rightarrow> js_error + json) \<Rightarrow> request \<Rightarrow> string \<Rightarrow> string \<Rightarrow> string \<Rightarrow> outcome_nonstreaming"
  where
  "forward_nonstreaming JSON_parse req apiKey focusPrompt video =
     (let call = fetch_init_nonstreaming apiKey (referer req) (mergedPrompt focusPrompt) video
      in \<lparr> reply =
             (case fetch req call of
                Inl err \<Rightarrow> Error_response (unexpected err)
              | Inr openrouterRes \<Rightarrow>
                  if \<not> ok openrouterRes then Error_response (upstream_failed openrouterRes)
                  else
                    (case text_result openrouterRes of
                       Inl err \<Rightarrow> Error_response (unexpected err)
                     | Inr body_text \<Rightarrow>
                         (case JSON_parse body_text of
                            Inl err \<Rightarrow> Error_response (unexpected err)
                          | Inr json \<Rightarrow>
                              (case contentText json of
                                 Inl err \<Rightarrow> Error_response (unexpected err)
                               | Inr chosen \<Rightarrow> summary_details json chosen)))),
           reply_effects = [ReadFormData, Fetch call] \<rparr>)"

definition POST_nonstreaming ::
  "(string \<Rightarrow> js_error + json) \<Rightarrow> request \<Rightarrow> outcome_nonstreaming" where
  "POST_nonstreaming JSON_parse req =
     (case OPENROUTER_API_KEY req of
        None \<Rightarrow> \<lparr> reply = Error_response (response misconfigured), reply_effects = [] \<rparr>
      | Some apiKey \<Rightarrow>
          if apiKey = [] then
            \<lparr> reply = Error_response (response misconfigured), reply_effects = [] \<rparr>
          else
            (case formData req of
               Inl err \<Rightarrow>
                 \<lparr> reply = Error_response (unexpected err), reply_effects = [ReadFormData] \<rparr>
             | Inr fd \<Rightarrow>
                 (let focusPrompt = field_text (formData_get fd ''focusPrompt'');
                      urlInput = field_text (formData_get fd ''videoUrl'');
                      fileInput = formData_get fd ''video''
                  in if \<not> truthy fileInput \<and> urlInput = [] then
                       \<lparr> reply = Error_response
                                   (Json 400 ''Provide a video file or a video URL.'' None),
                         reply_effects = [ReadFormData] \<rparr>
                     else
                       (case videoUrl (URL_parses req) fileInput urlInput of
                          Inl early \<Rightarrow>
                            \<lparr> reply = Error_response early, reply_effects = [ReadFormData] \<rparr>
                        | Inr v \<Rightarrow>
                            (case resolved v of
                               Inl early \<Rightarrow>
                                 \<lparr> reply = Error_response early,
                                   reply_effects = [ReadFormData] \<rparr>
                             | Inr video \<Rightarrow>
                                 forward_nonstreaming JSON_parse req apiKey focusPrompt
                                   video)))))"

subsection \<open>Example answers\<close>

text \<open>
  The JSON of a chat completion whose first choice has the content \<open>raw\<close>, a parser that
  reads it from a body, and a provider that answers 200 with that body.
\<close>

definition completion :: "string \<Rightarrow> json" where
  "completion raw =
     JObject
       [(''id'', JString ''gen-1''),
        (''choices'',
         JArray
           [JObject
              [(''index'', JNumber 0),
               (''message'',
                JObject [(''role'', JString ''assistant''), (''content'', JString raw)])]])]"

definition parses_to :: "json \<Rightarrow> string \<Rightarrow> js_error + json" where
  "parses_to json body_text = Inr json"

definition completed_with :: "string \<Rightarrow> fetch_call \<Rightarrow> js_error + upstream_response" where
  "completed_with body_text =
     answers \<lparr> status = 200, text_result = Inr body_text, body_stream = None \<rparr>"

section \<open>The streamed response\<close>

subsection \<open>TextDecoder and TextEncoder\<close>

text \<open>
  The relay passes every upstream chunk through
  \<^verbatim>\<open>decoder.decode(value, { stream: true })\<close> and \<^verbatim>\<open>new TextEncoder().encode(chunk)\<close>.
  Both are those of the Encoding Standard, which describes them on scalar values: the
  string between them is modelled as the list of its scalar values.

  The UTF-8 decoder keeps a code point, the bytes seen and needed, and the boundaries of
  the next continuation byte. \<open>utf8_lead\<close> is its step for a byte read while no bytes are
  needed; it returns the scalar values emitted, \<^verbatim>\<open>U+FFFD\<close> for an error.
\<close>

record utf8_decoder =
  code_point :: nat
  bytes_seen :: nat
  bytes_needed :: nat
  lower_boundary :: nat
  upper_boundary :: nat

definition utf8_decoder_init :: utf8_decoder where
  "utf8_decoder_init =
     \<lparr> code_point = 0, bytes_seen = 0, bytes_needed = 0,
       lower_boundary = 0x80, upper_boundary = 0xBF \<rparr>"

definition utf8_lead :: "utf8_decoder \<Rightarrow> nat \<Rightarrow> utf8_decoder \<times> nat list" where
  "utf8_lead d b =
     (if b \<le> 0x7F then (d, [b])
      else if 0xC2 \<le> b \<and> b \<le> 0xDF then
        (d\<lparr> bytes_needed := 1, code_point := b AND 0x1F \<rparr>, [])
      else if 0xE0 \<le> b \<and> b \<le> 0xEF then
        (d\<lparr> lower_boundary := (if b = 0xE0 then 0xA0 else lower_boundary d),
            upper_boundary := (if b = 0xED then 0x9F else upper_boundary d),
            bytes_needed := 2, code_point := b AND 0xF \<rparr>, [])
      else if 0xF0 \<le> b \<and> b \<le> 0xF4 then
        (d\<lparr> lower_boundary := (if b = 0xF0 then 0x90 else lower_boundary d),
            upper_boundary := (if b = 0xF4 then 0x8F else upper_boundary d),
            bytes_needed := 3, code_point := b AND 0x7 \<rparr>, [])
      else (d, [0xFFFD]))"

text \<open>
  The handler of the decoder for one byte. A byte outside the boundaries resets the
  decoder, is an error, and is read again by the reset decoder.
\<close>

definition utf8_handler :: "utf8_decoder \<Rightarrow> byte \<Rightarrow> utf8_decoder \<times> nat list" where
  "utf8_handler d byte =
     (let b = unat byte in
      if bytes_needed d = 0 then utf8_lead d b
      else if b < lower_boundary d \<or> upper_boundary d < b then
        (case utf8_lead utf8_decoder_init b of (d', out) \<Rightarrow> (d', 0xFFFD # out))
      else
        (let cp = push_bit 6 (code_point d) OR (b AND 0x3F);
             seen = bytes_seen d + 1
         in if seen \<noteq> bytes_needed d then
              (d\<lparr> lower_boundary := 0x80, upper_boundary := 0xBF, code_point := cp,
                  bytes_seen := seen \<rparr>, [])
            else (utf8_decoder_init, [cp])))"

fun utf8_run :: "utf8_decoder \<Rightarrow> byte list \<Rightarrow> utf8_decoder \<times> nat list" where
  "utf8_run d [] = (d, [])"
| "utf8_run d (byte # rest) =
     (case utf8_handler d byte of
        (d1, out1) \<Rightarrow> (case utf8_run d1 rest of (d2, out2) \<Rightarrow> (d2, out1 @ out2)))"

text \<open>
  A \<^verbatim>\<open>TextDecoder\<close> is the decoder and its \<^verbatim>\<open>BOM seen\<close> flag. Serialising the output
  drops \<^verbatim>\<open>U+FEFF\<close> when it is the first scalar value of the stream. With
  \<^verbatim>\<open>stream: true\<close> the end of the input is not given to the decoder: bytes of an unfinished
  character stay in it.
\<close>

record TextDecoder =
  decoder :: utf8_decoder
  BOM_seen :: bool

definition new_TextDecoder :: TextDecoder where
  "new_TextDecoder = \<lparr> decoder = utf8_decoder_init, BOM_seen = False \<rparr>"

definition serialize :: "bool \<Rightarrow> nat list \<Rightarrow> bool \<times> nat list" where
  "serialize seen out =
     (case out of
        [] \<Rightarrow> (seen, [])
      | item # items \<Rightarrow> (True, if \<not> seen \<and> item = 0xFEFF then items else item # items))"

definition decode :: "TextDecoder \<Rightarrow> byte list \<Rightarrow> TextDecoder \<times> nat list" where
  "decode t value =
     (case utf8_run (decoder t) value of
        (d, out) \<Rightarrow>
          (case serialize (BOM_seen t) out of
             (seen, chunk) \<Rightarrow> (\<lparr> decoder = d, BOM_seen = seen \<rparr>, chunk)))"

text \<open>The UTF-8 encoder: one byte for an ASCII code point, else a lead byte and
  \<open>count\<close> continuation bytes.\<close>

fun continuation_bytes :: "nat \<Rightarrow> nat \<Rightarrow> byte list" where
  "continuation_bytes cp 0 = []"
| "continuation_bytes cp (Suc n) =
     of_nat (0x80 OR (drop_bit (6 * n) cp AND 0x3F)) # continuation_bytes cp n"

definition utf8_encode :: "nat \<Rightarrow> byte list" where
  "utf8_encode cp =
     (if cp \<le> 0x7F then [of_nat cp]
      else
        (case (if cp \<le> 0x7FF then (1, 0xC0)
               else if cp \<le> 0xFFFF then (2, 0xE0) else (3, 0xF0)) of
           (count, offset) \<Rightarrow>
             of_nat (drop_bit (6 * count) cp + offset) # continuation_bytes cp count))"

definition encode :: "nat list \<Rightarrow> byte list" where
  "encode chunk = concat (map utf8_encode chunk)"

subsection \<open>The ReadableStream and its controller\<close>

text \<open>
  The stream handed to \<^verbatim>\<open>new Response\<close>, as the Streams Standard defines a
  \<^verbatim>\<open>ReadableStreamDefaultController\<close>: the state of the stream, the close-requested flag
  and the queue of chunks not yet read.
  \<^item> \<^verbatim>\<open>enqueue\<close> and \<^verbatim>\<open>close\<close> throw a \<^verbatim>\<open>TypeError\<close> unless the stream is readable and no
    close has been requested; \<^verbatim>\<open>close\<close> closes the stream at once when the queue is empty
    and otherwise when the last chunk has been read.
  \<^item> \<^verbatim>\<open>error\<close> does nothing unless the stream is readable; else it empties the queue and
    puts the stream in the errored state.
  \<^item> A \<^verbatim>\<open>read()\<close> of the consumer takes the first chunk of the queue; with an empty queue
    it reports the end of a closed stream, rejects with the error of an errored one, and
    stays pending (\<open>None\<close>) on a readable one.
\<close>

datatype stream_state = Readable | Closed | Errored js_error

record controller =
  state :: stream_state
  closeRequested :: bool
  queue :: "byte list list"

definition new_controller :: controller where
  "new_controller = \<lparr> state = Readable, closeRequested = False, queue = [] \<rparr>"

definition TypeError :: js_error where
  "TypeError = JsError ''Invalid state: Controller is already closed''
     ''TypeError: Invalid state: Controller is already closed''"

definition controller_enqueue :: "byte list \<Rightarrow> controller \<Rightarrow> js_error + controller" where
  "controller_enqueue chunk c =
     (if closeRequested c \<or> state c \<noteq> Readable then Inl TypeError
      else Inr (c\<lparr> queue := queue c @ [chunk] \<rparr>))"

definition controller_close :: "controller \<Rightarrow> js_error + controller" where
  "controller_close c =
     (if closeRequested c \<or> state c \<noteq> Readable then Inl TypeError
      else Inr (c\<lparr> closeRequested := True,
                   state := (if queue c = [] then Closed else Readable) \<rparr>))"

definition controller_error :: "js_error \<Rightarrow> controller \<Rightarrow> controller" where
  "controller_error e c =
     (if state c \<noteq> Readable then c else c\<lparr> queue := [], state := Errored e \<rparr>)"

datatype observed = Chunk "byte list" | End | Failure js_error

definition reader_read :: "controller \<Rightarrow> observed option \<times> controller" where
  "reader_read c =
     (case queue c of
        chunk # rest \<Rightarrow>
          (Some (Chunk chunk),
           c\<lparr> queue := rest,
              state := (if closeRequested c \<and> rest = [] then Closed else state c) \<rparr>)
      | [] \<Rightarrow>
          (case state c of
             Readable \<Rightarrow> (None, c)
           | Closed \<Rightarrow> (Some End, c)
           | Errored e \<Rightarrow> (Some (Failure e), c)))"

subsection \<open>The start function of the stream\<close>

text \<open>
  Lines 144 to 168. The function is either waiting for the next \<^verbatim>\<open>reader.read()\<close> of the
  upstream body, with its decoder and what the upstream has still to deliver, or it has
  returned. \<open>close_in_start\<close> is a call of \<^verbatim>\<open>controller.close()\<close> in \<^verbatim>\<open>start\<close>, as in
  the \<^verbatim>\<open>finally\<close> block: when it throws, nothing catches it, the promise of \<^verbatim>\<open>start\<close>
  rejects and the stream errors the controller with the thrown value (which does nothing
  to a stream that is no longer readable).
\<close>

datatype pump = Reading TextDecoder "byte list list" read_end | Returned

definition close_in_start :: "controller \<Rightarrow> controller" where
  "close_in_start c =
     (case controller_close c of
        Inl thrown \<Rightarrow> controller_error thrown c
      | Inr c' \<Rightarrow> c')"

text \<open>The part of \<^verbatim>\<open>start\<close> before the loop: without a body the stream is closed.\<close>

definition start :: "upstream_body option \<Rightarrow> controller \<Rightarrow> pump \<times> controller" where
  "start b c =
     (case b of
        None \<Rightarrow>
          (Returned, close_in_start c)
      | Some upstream \<Rightarrow> (Reading new_TextDecoder (chunks upstream) (ending upstream), c))"

text \<open>One turn of the loop: the pending \<^verbatim>\<open>reader.read()\<close> settles and the code runs up to
  the next one, or to the end of \<^verbatim>\<open>start\<close>.\<close>

fun pump_step :: "pump \<Rightarrow> controller \<Rightarrow> pump \<times> controller" where
  "pump_step Returned c = (Returned, c)"
| "pump_step (Reading dec [] Done) c = (Returned, close_in_start c)"
| "pump_step (Reading dec [] (ReadError e)) c = (Returned, close_in_start (controller_error e c))"
| "pump_step (Reading dec (value # rest) e) c =
     (case decode dec value of
        (dec', chunk) \<Rightarrow>
          (case controller_enqueue (encode chunk) c of
             Inl thrown \<Rightarrow> (Returned, close_in_start (controller_error thrown c))
           | Inr c' \<Rightarrow> (Reading dec' rest e, c')))"

subsection \<open>The relay and its consumer\<close>

text \<open>
  The relay and the consumer of the response take turns in an order the code does not
  fix: a schedule is a list of turns. On its turn the consumer calls \<^verbatim>\<open>read()\<close> and notes
  what it gets, unless it has seen the end or an error already or is still waiting for
  its last \<^verbatim>\<open>read()\<close>. A \<^verbatim>\<open>read()\<close> that stays pending is settled by the next turn of the
  relay that enqueues a chunk, closes the stream or errors it.
\<close>

datatype turn = Produce | Consume

record relay =
  pump :: pump
  controller :: controller
  pending :: bool
  seen :: "observed list"

definition finished :: "observed list \<Rightarrow> bool" where
  "finished obs = (case rev obs of [] \<Rightarrow> False | Chunk c # earlier \<Rightarrow> False | _ \<Rightarrow> True)"

definition settle :: "relay \<Rightarrow> relay" where
  "settle r =
     (if pending r then
        (case reader_read (controller r) of
           (None, c) \<Rightarrow> r
         | (Some ob, c) \<Rightarrow> r\<lparr> controller := c, pending := False, seen := seen r @ [ob] \<rparr>)
      else r)"

fun step :: "turn \<Rightarrow> relay \<Rightarrow> relay" where
  "step Produce r =
     (case pump_step (pump r) (controller r) of
        (p, c) \<Rightarrow> settle (r\<lparr> pump := p, controller := c \<rparr>))"
| "step Consume r =
     (if finished (seen r) \<or> pending r then r
      else (case reader_read (controller r) of
              (None, c) \<Rightarrow> r\<lparr> pending := True \<rparr>
            | (Some ob, c) \<Rightarrow> r\<lparr> controller := c, seen := seen r @ [ob] \<rparr>))"

definition relay_start :: "upstream_body option \<Rightarrow> relay" where
  "relay_start b =
     (case start b new_controller of
        (p, c) \<Rightarrow> \<lparr> pump = p, controller = c, pending = False, seen = [] \<rparr>)"

text \<open>
  What the consumer observes in all: the turns of the schedule, after which the relay
  runs to its end and the consumer reads on until it sees the end or an error. The
  upstream delivers \<open>n\<close> chunks, so \<open>n + 1\<close> further turns of each are enough.
\<close>

definition body_length :: "upstream_body option \<Rightarrow> nat" where
  "body_length b = (case b of None \<Rightarrow> 0 | Some upstream \<Rightarrow> length (chunks upstream))"

definition observe :: "turn list \<Rightarrow> upstream_body option \<Rightarrow> observed list" where
  "observe schedule b =
     seen (fold step
             (schedule @ replicate (Suc (body_length b)) Produce
                       @ replicate (Suc (body_length b)) Consume)
             (relay_start b))"

text \<open>The bytes delivered to the caller: those of the chunks observed, in order.\<close>

fun delivered :: "observed list \<Rightarrow> byte list" where
  "delivered [] = []"
| "delivered (Chunk c # obs) = c @ delivered obs"
| "delivered (ob # obs) = delivered obs"

text \<open>The chunks the relay enqueues for the chunks it reads, from a given decoder on.\<close>

fun relayed :: "TextDecoder \<Rightarrow> byte list list \<Rightarrow> byte list list" where
  "relayed dec [] = []"
| "relayed dec (value # rest) =
     (case decode dec value of (dec', chunk) \<Rightarrow> encode chunk # relayed dec' rest)"

subsection \<open>Well-formed text\<close>

text \<open>
  A Unicode scalar value is a code point up to \<^verbatim>\<open>U+10FFFF\<close> that is not a surrogate;
  \<open>no_BOM\<close> says that a text does not begin with the byte order mark \<^verbatim>\<open>U+FEFF\<close>.
\<close>

definition scalar :: "nat \<Rightarrow> bool" where
  "scalar cp = (cp \<le> 0x10FFFF \<and> \<not> (0xD800 \<le> cp \<and> cp \<le> 0xDFFF))"

definition no_BOM :: "nat list \<Rightarrow> bool" where
  "no_BOM cps = (case cps of [] \<Rightarrow> True | cp # rest \<Rightarrow> cp \<noteq> 0xFEFF)"

subsection \<open>Schedules and invariants of the relay\<close>

text \<open>The consumer that reads after every turn of the relay, for \<open>n\<close> turns.\<close>

definition eager :: "nat \<Rightarrow> turn list" where
  "eager n = concat (replicate n [Produce, Consume])"

text \<open>A connection that breaks.\<close>

definition terminated :: js_error where
  "terminated = JsError ''terminated'' ''TypeError: terminated''"

text \<open>
  The states the relay and its consumer go through, for the chunks \<open>R\<close> that the relay
  enqueues in all: while the loop runs, the chunks read by the consumer, those in the
  queue and those still to come make up \<open>R\<close>, and a read is pending on an empty queue
  only; after a normal end the stream is closing or closed; after a failed read it is
  errored and its queue is empty.
\<close>

definition pumping :: "byte list list \<Rightarrow> read_end \<Rightarrow> relay \<Rightarrow> bool" where
  "pumping R en r =
     (\<exists>dec rest got.
        pump r = Reading dec rest en \<and> R = got @ queue (controller r) @ relayed dec rest \<and>
        state (controller r) = Readable \<and> \<not> closeRequested (controller r) \<and>
        (pending r \<longrightarrow> queue (controller r) = []) \<and>
        seen r = map Chunk got)"

definition closing :: "byte list list \<Rightarrow> relay \<Rightarrow> bool" where
  "closing R r =
     (pump r = Returned \<and> closeRequested (controller r) \<and> \<not> pending r \<and>
      state (controller r) = (if queue (controller r) = [] then Closed else Readable) \<and>
      (\<exists>got. R = got @ queue (controller r) \<and>
         (seen r = map Chunk got \<or>
          (queue (controller r) = [] \<and> seen r = map Chunk got @ [End]))))"

definition failed :: "byte list list \<Rightarrow> js_error \<Rightarrow> relay \<Rightarrow> bool" where
  "failed R e r =
     (pump r = Returned \<and> state (controller r) = Errored e \<and> queue (controller r) = [] \<and>
      \<not> pending r \<and>
      (\<exists>got later. R = got @ later \<and>
         (seen r = map Chunk got \<or> seen r = map Chunk got @ [Failure e])))"

definition relay_inv :: "byte list list \<Rightarrow> read_end \<Rightarrow> relay \<Rightarrow> bool" where
  "relay_inv R en r =
     (pumping R en r \<or> (en = Done \<and> closing R r) \<or> (\<exists>e. en = ReadError e \<and> failed R e r))"

text \<open>The turns the relay still needs, and the reads the consumer still needs.\<close>

definition todo :: "relay \<Rightarrow> nat" where
  "todo r = (case pump r of Returned \<Rightarrow> 0 | Reading dec rest en \<Rightarrow> Suc (length rest))"

definition unread :: "relay \<Rightarrow> nat" where
  "unread r = (if finished (seen r) then 0 else Suc (length (queue (controller r))))"

section \<open>Properties of the route handler\<close>

lemmas taxonomy =
  ServerMisconfigured_def MissingInput_def EmptyFile_def TooLarge_def InvalidUrl_def
  Unresolved_def

lemma forward_effects:
  "effects (forward req k fp v) =
     [ReadFormData, Fetch (fetch_init k (referer req) (mergedPrompt fp) v)]"
  by (simp add: forward_def Let_def split: sum.splits)

lemma forward_not_validation:
  "response (forward req k fp v) \<notin> {MissingInput, EmptyFile, TooLarge, InvalidUrl}"
  by (simp add: forward_def Let_def taxonomy unexpected_def upstream_failed_def
      split: sum.splits)

text \<open>The handler on a request whose \<^verbatim>\<open>video\<close> field is a file.\<close>

lemma POST_file:
  assumes "OPENROUTER_API_KEY req = Some k" "k \<noteq> []" "formData req = Inr fd"
    and "formData_get fd ''video'' = Some (FileValue f)"
  shows "POST req =
     (if file_size f = 0 then \<lparr> response = EmptyFile, effects = [ReadFormData] \<rparr>
      else if file_size f > maxBytes then \<lparr> response = TooLarge, effects = [ReadFormData] \<rparr>
      else forward req k (field_text (formData_get fd ''focusPrompt'')) (fileToDataUrl f))"
proof -
  have "fileToDataUrl f \<noteq> []" by (simp add: fileToDataUrl_def Let_def)
  then show ?thesis using assms
    by (simp add: POST_def Let_def videoUrl_def resolved_def taxonomy)
qed

text \<open>The handler on a request whose \<^verbatim>\<open>video\<close> field is absent or a string.\<close>

lemma POST_no_file:
  assumes "OPENROUTER_API_KEY req = Some k" "k \<noteq> []" "formData req = Inr fd"
    and "\<forall>f. formData_get fd ''video'' \<noteq> Some (FileValue f)"
  shows "POST req =
     (let u = field_text (formData_get fd ''videoUrl'') in
      if u = [] then
        (if truthy (formData_get fd ''video'')
         then \<lparr> response = Unresolved, effects = [ReadFormData] \<rparr>
         else \<lparr> response = MissingInput, effects = [ReadFormData] \<rparr>)
      else if \<not> URL_parses req u then \<lparr> response = InvalidUrl, effects = [ReadFormData] \<rparr>
      else forward req k (field_text (formData_get fd ''focusPrompt'')) u)"
  using assms
  by (cases "formData_get fd ''video''"; cases "the (formData_get fd ''video'')")
     (auto simp add: POST_def Let_def videoUrl_def resolved_def taxonomy)

lemma POST_shape:
  "effects (POST req) = [] \<or> effects (POST req) = [ReadFormData] \<or>
    (\<exists>k fp v. POST req = forward req k fp v)"
  unfolding POST_def misconfigured_def Let_def
  by (simp split: option.splits sum.splits) blast

lemma POST_fetched:
  assumes "Fetch call \<in> set (effects (POST req))"
  shows "\<exists>k fp v. POST req = forward req k fp v \<and>
           call = fetch_init k (referer req) (mergedPrompt fp) v"
proof -
  from POST_shape [of req] assms obtain k fp v where p: "POST req = forward req k fp v"
    by fastforce
  from assms have "call = fetch_init k (referer req) (mergedPrompt fp) v"
    unfolding p forward_effects by simp
  with p show ?thesis by blast
qed

lemma decimal_503: "decimal 503 = ''503''"
  by code_simp

subsection \<open>C3: a provider status outside 200 to 299\<close>

text \<open>
  C3 as stated fails: the response to a failed provider call carries the provider's body
  text \<^emph>\<open>or\<close> its status, not both. For a provider answering 503 with the body
  \<^verbatim>\<open>overloaded\<close> the caller receives status 502 with details \<^verbatim>\<open>overloaded\<close>; the number
  503 occurs nowhere in the response.
\<close>

theorem C3_status_dropped_when_body_present:
  "response (POST (example_request [(''videoUrl'', StringValue ''https://example.com/clip.mp4'')]
       (answers \<lparr> status = 503, text_result = Inr ''overloaded'', body_stream = None \<rparr>)))
     = Json 502 ''OpenRouter request failed. Check model/video compatibility and limits.''
         (Some ''overloaded'')
   \<and> decimal 503 = ''503''
   \<and> \<not> sublist ''503'' ''overloaded''
   \<and> \<not> sublist ''503''
         ''OpenRouter request failed. Check model/video compatibility and limits.''"
proof -
  have "\<not> sublist ''503'' ''overloaded''"
    by code_simp
  moreover have "\<not> sublist ''503''
      ''OpenRouter request failed. Check model/video compatibility and limits.''"
    by code_simp
  ultimately show ?thesis
    using decimal_503
    by (simp add: POST_def example_request_def formData_get_def Let_def videoUrl_def
        resolved_def trim_def isWhiteSpace_def forward_def answers_def ok_def
        upstream_failed_def)
qed

text \<open>
  C3 (amended): for every request whose outbound call returns a status outside 200 to
  299, the handler answers with a JSON error of status 502 whose details are the
  provider's body text when that text could be read and is not empty, and otherwise the
  string \<^verbatim>\<open>Status\<close> followed by the provider's status; the answer is never a stream, so
  the failure precedes every stream frame.
\<close>

theorem C3_upstream_failure_is_json_502:
  assumes "Fetch call \<in> set (effects (POST req))"
    and "fetch req call = Inr res" and "\<not> ok res"
  shows "response (POST req) =
           Json 502 ''OpenRouter request failed. Check model/video compatibility and limits.''
             (Some (case text_result res of
                      Inl e \<Rightarrow> ''Status '' @ decimal (status res)
                    | Inr t \<Rightarrow> if t \<noteq> [] then t else ''Status '' @ decimal (status res)))
         \<and> (\<forall>h b. response (POST req) \<noteq> Stream h b)"
proof -
  from POST_fetched [OF assms(1)] obtain k fp v where
    p: "POST req = forward req k fp v" and
    c: "call = fetch_init k (referer req) (mergedPrompt fp) v"
    by blast
  from assms(2) have f: "fetch req (fetch_init k (referer req) (mergedPrompt fp) v) = Inr res"
    by (simp only: c)
  have r: "response (POST req) = upstream_failed res"
    by (simp only: p forward_def Let_def f assms(3) sum.case if_True if_False simp_thms
        outcome.simps)
  show ?thesis
    by (cases "text_result res") (simp_all add: r upstream_failed_def)
qed

theorem C3_upstream_failure_witness:
  "Fetch (fetch_init ''sk-or-test'' None (mergedPrompt []) ''https://example.com/clip.mp4'')
     \<in> set (effects (POST (example_request
           [(''videoUrl'', StringValue ''https://example.com/clip.mp4'')]
           (answers \<lparr> status = 503, text_result = Inl (JsError ''aborted'' ''Error: aborted''),
                      body_stream = None \<rparr>))))
   \<and> \<not> ok \<lparr> status = 503, text_result = Inl (JsError ''aborted'' ''Error: aborted''),
             body_stream = None \<rparr>
   \<and> response (POST (example_request
           [(''videoUrl'', StringValue ''https://example.com/clip.mp4'')]
           (answers \<lparr> status = 503, text_result = Inl (JsError ''aborted'' ''Error: aborted''),
                      body_stream = None \<rparr>)))
       = Json 502 ''OpenRouter request failed. Check model/video compatibility and limits.''
           (Some ''Status 503'')"
proof -
  let ?res = "\<lparr> status = 503, text_result = Inl (JsError ''aborted'' ''Error: aborted''),
                body_stream = None \<rparr>"
  let ?req = "example_request [(''videoUrl'', StringValue ''https://example.com/clip.mp4'')]
                (answers ?res)"
  let ?call = "fetch_init ''sk-or-test'' None (mergedPrompt []) ''https://example.com/clip.mp4''"
  have e: "effects (POST ?req) = [ReadFormData, Fetch ?call]"
    by (simp add: POST_def example_request_def formData_get_def Let_def videoUrl_def
        resolved_def trim_def isWhiteSpace_def forward_effects)
  have a: "Fetch ?call \<in> set (effects (POST ?req))"
    by (simp only: e) simp
  have b: "fetch ?req ?call = Inr ?res"
    by (simp add: example_request_def answers_def)
  have c: "\<not> ok ?res"
    by (simp add: ok_def)
  from C3_upstream_failure_is_json_502 [OF a b c] a c decimal_503 show ?thesis
    by simp
qed

subsection \<open>C4: the size checks on an uploaded file\<close>

text \<open>
  C4 as stated fails at the ceiling itself: the handler compares with \<^verbatim>\<open>size > maxBytes\<close>,
  so a file of exactly 100 MiB is not answered with the 413 response (here the handler
  goes on to call the provider, which is offline).
\<close>

theorem C4_file_of_exactly_the_ceiling_is_accepted:
  "file_size (clip (replicate (100 * 1024 * 1024) 0)) \<ge> 100 * 1024 * 1024 \<and>
   response (POST (example_request
       [(''video'', FileValue (clip (replicate (100 * 1024 * 1024) 0)))] offline))
     \<noteq> TooLarge \<and>
   effects (POST (example_request
       [(''video'', FileValue (clip (replicate (100 * 1024 * 1024) 0)))] offline))
     = [ReadFormData,
        Fetch (fetch_init ''sk-or-test'' None (mergedPrompt [])
                 (fileToDataUrl (clip (replicate (100 * 1024 * 1024) 0))))]"
  by (simp add: POST_file [where k = "''sk-or-test''"
          and fd = "[(''video'', FileValue (clip (replicate (100 * 1024 * 1024) 0)))]"
          and f = "clip (replicate (100 * 1024 * 1024) 0)"]
      example_request_def formData_get_def file_size_def clip_def maxBytes_def forward_def
      offline_def unexpected_def TooLarge_def trim_def)

text \<open>
  C4 (amended): for every uploaded file whose byte length is above the 100 MiB ceiling the
  handler answers TooLarge (HTTP 413), and a file of exactly the ceiling is passed on to
  the provider; for every uploaded file of byte length zero it answers EmptyFile
  (HTTP 400).
\<close>

theorem C4_size_checks:
  assumes "OPENROUTER_API_KEY req = Some k" "k \<noteq> []" "formData req = Inr fd"
    and "formData_get fd ''video'' = Some (FileValue f)"
  shows "(file_size f > 100 * 1024 * 1024 \<longrightarrow>
            response (POST req) = TooLarge \<and> http_status (response (POST req)) = 413)
       \<and> (file_size f = 100 * 1024 * 1024 \<longrightarrow>
            POST req = forward req k (field_text (formData_get fd ''focusPrompt''))
                         (fileToDataUrl f))
       \<and> (file_size f = 0 \<longrightarrow>
            response (POST req) = EmptyFile \<and> http_status (response (POST req)) = 400)"
  using POST_file [OF assms] by (simp add: maxBytes_def taxonomy)

theorem C4_size_checks_witness:
  "response (POST (example_request [(''video'', FileValue (clip []))] offline)) = EmptyFile
   \<and> response (POST (example_request
         [(''video'', FileValue (clip (replicate (100 * 1024 * 1024 + 1) 0)))] offline))
       = TooLarge"
  using
    C4_size_checks [of "example_request [(''video'', FileValue (clip []))] offline"
      "''sk-or-test''" "[(''video'', FileValue (clip []))]" "clip []"]
    C4_size_checks [of "example_request
        [(''video'', FileValue (clip (replicate (100 * 1024 * 1024 + 1) 0)))] offline"
      "''sk-or-test''" "[(''video'', FileValue (clip (replicate (100 * 1024 * 1024 + 1) 0)))]"
      "clip (replicate (100 * 1024 * 1024 + 1) 0)"]
  by (simp add: example_request_def formData_get_def file_size_def clip_def)

subsection \<open>C5: a file and a URL together\<close>

text \<open>
  C5 as stated fails for a file that does not pass its own checks: with an empty file and
  a URL that parses, the handler answers EmptyFile; no data URL is built and the URL is
  not used either.
\<close>

theorem C5_empty_file_with_valid_url_is_rejected:
  "POST (example_request
      [(''video'', FileValue (clip [])),
       (''videoUrl'', StringValue ''https://example.com/clip.mp4'')] offline)
     = \<lparr> response = EmptyFile, effects = [ReadFormData] \<rparr>"
  by (simp add: POST_def example_request_def formData_get_def Let_def videoUrl_def
      file_size_def clip_def trim_def isWhiteSpace_def taxonomy)

text \<open>
  C5 (amended): for every request supplying both an uploaded file and a URL string, the
  outcome is decided by the file alone, for any URL string, valid or invalid: a non-empty
  file of at most 100 MiB is sent to the provider as the data URL built from it, an empty
  file is answered with EmptyFile and a larger one with TooLarge. The URL string is never
  syntax-checked: replacing the URL parser by any other, or the URL string by any other,
  leaves response and effects as they are.
\<close>

theorem C5_file_takes_precedence:
  assumes "OPENROUTER_API_KEY req = Some k" "k \<noteq> []" "formData req = Inr fd"
    and "formData_get fd ''video'' = Some (FileValue f)"
    and "formData_get fd ''videoUrl'' = Some (StringValue u)"
  shows "(0 < file_size f \<and> file_size f \<le> maxBytes \<longrightarrow>
           POST req = forward req k (field_text (formData_get fd ''focusPrompt''))
                        (fileToDataUrl f))
       \<and> (file_size f = 0 \<longrightarrow> response (POST req) = EmptyFile)
       \<and> (file_size f > maxBytes \<longrightarrow> response (POST req) = TooLarge)
       \<and> response (POST (req\<lparr>URL_parses := p\<rparr>)) = response (POST req)
       \<and> effects (POST (req\<lparr>URL_parses := p\<rparr>)) = effects (POST req)
       \<and> response (POST (req\<lparr>formData := Inr ((''videoUrl'', StringValue u') # fd)\<rparr>))
           = response (POST req)
       \<and> effects (POST (req\<lparr>formData := Inr ((''videoUrl'', StringValue u') # fd)\<rparr>))
           = effects (POST req)"
proof -
  let ?fd = "(''videoUrl'', StringValue u') # fd"
  have a: "OPENROUTER_API_KEY (req\<lparr>URL_parses := p\<rparr>) = Some k"
    "formData (req\<lparr>URL_parses := p\<rparr>) = Inr fd"
    using assms by simp_all
  have b: "OPENROUTER_API_KEY (req\<lparr>formData := Inr ?fd\<rparr>) = Some k"
    "formData (req\<lparr>formData := Inr ?fd\<rparr>) = Inr ?fd"
    "formData_get ?fd ''video'' = Some (FileValue f)"
    "formData_get ?fd ''focusPrompt'' = formData_get fd ''focusPrompt''"
    using assms by (simp_all add: formData_get_def)
  show ?thesis
    using POST_file [OF assms(1-4)] POST_file [OF a(1) assms(2) a(2) assms(4)]
      POST_file [OF b(1) assms(2) b(2) b(3)]
    by (simp add: forward_def Let_def b(4))
qed

theorem C5_file_takes_precedence_witness:
  "POST (example_request
      [(''video'', FileValue (clip [1, 2, 3])), (''videoUrl'', StringValue ''not a url'')]
      offline)
     = forward (example_request
          [(''video'', FileValue (clip [1, 2, 3])), (''videoUrl'', StringValue ''not a url'')]
          offline)
         ''sk-or-test'' [] (fileToDataUrl (clip [1, 2, 3]))"
  using C5_file_takes_precedence [of
      "example_request
        [(''video'', FileValue (clip [1, 2, 3])), (''videoUrl'', StringValue ''not a url'')]
        offline"
      "''sk-or-test''"
      "[(''video'', FileValue (clip [1, 2, 3])), (''videoUrl'', StringValue ''not a url'')]"
      "clip [1, 2, 3]" "''not a url''"]
  by (simp add: example_request_def formData_get_def file_size_def clip_def maxBytes_def
      trim_def)

subsection \<open>C9: what happens before what\<close>

text \<open>
  C9: if the provider API key is absent (unset or empty) the request fails with
  ServerMisconfigured (HTTP 500) and nothing has been done before: the form data has not
  even been read. And whenever the response is one of the validation errors MissingInput,
  EmptyFile, TooLarge or InvalidUrl, no call to the provider has been made.
\<close>

theorem C9_misconfigured_first_and_validation_before_fetch:
  "((OPENROUTER_API_KEY req = None \<or> OPENROUTER_API_KEY req = Some []) \<longrightarrow>
       response (POST req) = ServerMisconfigured \<and> http_status (response (POST req)) = 500
       \<and> effects (POST req) = [])
   \<and> (response (POST req) \<in> {MissingInput, EmptyFile, TooLarge, InvalidUrl} \<longrightarrow>
       effects (POST req) = [ReadFormData] \<and> (\<forall>call. Fetch call \<notin> set (effects (POST req))))"
proof -
  have a: "response (POST req) = ServerMisconfigured \<and> http_status (response (POST req)) = 500
      \<and> effects (POST req) = []"
    if "OPENROUTER_API_KEY req = None \<or> OPENROUTER_API_KEY req = Some []"
    using that by (auto simp: POST_def misconfigured_def ServerMisconfigured_def)
  have b: "effects (POST req) = [ReadFormData]"
    if v: "response (POST req) \<in> {MissingInput, EmptyFile, TooLarge, InvalidUrl}"
  proof -
    from POST_shape [of req] consider
      "effects (POST req) = []" | "effects (POST req) = [ReadFormData]" |
      k fp v where "POST req = forward req k fp v"
      by blast
    then show ?thesis
    proof cases
      case 1
      then have "POST req = misconfigured"
        by (auto simp: POST_def Let_def forward_effects split: option.splits sum.splits if_splits)
      with v show ?thesis by (simp add: misconfigured_def taxonomy)
    next
      case 2
      then show ?thesis .
    next
      case 3
      with v forward_not_validation [of req k fp v] show ?thesis by simp
    qed
  qed
  from a b show ?thesis by auto
qed

theorem C9_misconfigured_first_and_validation_before_fetch_witness:
  "POST \<lparr> OPENROUTER_API_KEY = None,
          formData = Inl (JsError ''bad multipart body'' ''TypeError: bad multipart body''),
          referer = None, URL_parses = (\<lambda>s. True), fetch = offline \<rparr>
     = \<lparr> response = ServerMisconfigured, effects = [] \<rparr>
   \<and> POST (example_request [(''videoUrl'', StringValue ''not a url'')] offline)
     = \<lparr> response = InvalidUrl, effects = [ReadFormData] \<rparr>"
proof -
  let ?r = "\<lparr> OPENROUTER_API_KEY = None,
          formData = Inl (JsError ''bad multipart body'' ''TypeError: bad multipart body''),
          referer = None, URL_parses = (\<lambda>s. True), fetch = offline \<rparr>"
  let ?q = "example_request [(''videoUrl'', StringValue ''not a url'')] offline"
  have "response (POST ?q) = InvalidUrl"
    by (simp add: POST_def example_request_def formData_get_def Let_def videoUrl_def
        trim_def isWhiteSpace_def taxonomy)
  with C9_misconfigured_first_and_validation_before_fetch [of ?r]
    C9_misconfigured_first_and_validation_before_fetch [of ?q]
  have "response (POST ?r) = ServerMisconfigured \<and> effects (POST ?r) = []
      \<and> response (POST ?q) = InvalidUrl \<and> effects (POST ?q) = [ReadFormData]"
    by simp
  then show ?thesis
    by (metis outcome.surjective old.unit.exhaust)
qed

subsection \<open>C10: a video field that is not a file\<close>

text \<open>
  C10 as stated fails for the empty string: a \<^verbatim>\<open>video\<close> field that is present with the
  empty string as its value is falsy, so it does not suppress the MissingInput check.
\<close>

theorem C10_empty_string_video_field_is_missing_input:
  "POST (example_request [(''video'', StringValue [])] offline)
     = \<lparr> response = MissingInput, effects = [ReadFormData] \<rparr>
   \<and> MissingInput \<noteq> Unresolved"
  by (simp add: POST_def example_request_def formData_get_def Let_def trim_def taxonomy)

text \<open>
  C10 (amended): if the \<^verbatim>\<open>video\<close> form field is present with a non-empty string as its
  value, it suppresses the MissingInput check but is not treated as a file: with a URL
  also supplied the URL is used instead (checked for syntax, then sent to the provider),
  and with no URL the request fails with the 400 response \<^verbatim>\<open>Unable to resolve video input.\<close>,
  which is none of the responses of the error taxonomy.
\<close>

theorem C10_string_video_field:
  assumes "OPENROUTER_API_KEY req = Some k" "k \<noteq> []" "formData req = Inr fd"
    and "formData_get fd ''video'' = Some (StringValue s)" and "s \<noteq> []"
  shows "(field_text (formData_get fd ''videoUrl'') = [] \<longrightarrow>
            POST req = \<lparr> response = Unresolved, effects = [ReadFormData] \<rparr>)
       \<and> (field_text (formData_get fd ''videoUrl'') \<noteq> [] \<longrightarrow>
            POST req =
              (if URL_parses req (field_text (formData_get fd ''videoUrl''))
               then forward req k (field_text (formData_get fd ''focusPrompt''))
                      (field_text (formData_get fd ''videoUrl''))
               else \<lparr> response = InvalidUrl, effects = [ReadFormData] \<rparr>))
       \<and> http_status Unresolved = 400
       \<and> Unresolved \<notin> {ServerMisconfigured, MissingInput, InvalidUrl, EmptyFile, TooLarge}"
proof -
  have nf: "\<forall>f. formData_get fd ''video'' \<noteq> Some (FileValue f)" using assms(4) by simp
  show ?thesis
    using POST_no_file [OF assms(1-3) nf] assms(4,5)
    by (simp add: Let_def taxonomy)
qed

theorem C10_string_video_field_witness:
  "POST (example_request [(''video'', StringValue ''clip.mp4'')] offline)
     = \<lparr> response = Unresolved, effects = [ReadFormData] \<rparr>
   \<and> POST (example_request
        [(''video'', StringValue ''clip.mp4''),
         (''videoUrl'', StringValue ''https://example.com/clip.mp4'')] offline)
     = forward (example_request
        [(''video'', StringValue ''clip.mp4''),
         (''videoUrl'', StringValue ''https://example.com/clip.mp4'')] offline)
        ''sk-or-test'' [] ''https://example.com/clip.mp4''"
  using
    C10_string_video_field [of
      "example_request [(''video'', StringValue ''clip.mp4'')] offline" "''sk-or-test''"
      "[(''video'', StringValue ''clip.mp4'')]" "''clip.mp4''"]
    C10_string_video_field [of
      "example_request [(''video'', StringValue ''clip.mp4''),
         (''videoUrl'', StringValue ''https://example.com/clip.mp4'')] offline" "''sk-or-test''"
      "[(''video'', StringValue ''clip.mp4''),
         (''videoUrl'', StringValue ''https://example.com/clip.mp4'')]" "''clip.mp4''"]
  by (simp add: example_request_def formData_get_def trim_def isWhiteSpace_def)

section \<open>Properties of the prompt\<close>

lemma sublist_across_separator:
  assumes "q \<notin> set p"
  shows "sublist p (xs @ q # ys) \<longleftrightarrow> sublist p xs \<or> sublist p ys"
proof
  assume "sublist p (xs @ q # ys)"
  then consider "sublist p xs" | "sublist p (q # ys)"
    | p1 p2 where "p = p1 @ p2" "suffix p1 xs" "prefix p2 (q # ys)"
    by (auto simp: sublist_append)
  then show "sublist p xs \<or> sublist p ys"
  proof cases
    case 1 then show ?thesis by simp
  next
    case 2
    then show ?thesis using assms
      by (cases p) (auto simp: sublist_Cons_right prefix_Cons)
  next
    case 3
    show ?thesis
    proof (cases p2)
      case Nil
      with 3 show ?thesis by (auto intro: suffix_imp_sublist)
    next
      case (Cons a as)
      with 3 assms show ?thesis by (auto simp: prefix_Cons)
    qed
  qed
next
  assume "sublist p xs \<or> sublist p ys"
  then show "sublist p (xs @ q # ys)"
    by (auto simp: sublist_append sublist_Cons_right)
qed

lemma phrase_not_in_head:
  "\<not> sublist defaultPhrase (baseInstruction @ '' The user has an additional focus: '')"
  unfolding defaultPhrase_def baseInstruction_def by code_simp

lemma phrase_not_in_tail:
  "\<not> sublist defaultPhrase
     ''. Prioritize this focus in your analysis while still covering core observations.''"
  unfolding defaultPhrase_def by code_simp

lemma phrase_no_quote: "CHR 0x22 \<notin> set defaultPhrase"
  unfolding defaultPhrase_def by simp

lemma clause_not_in_default:
  "\<not> sublist ''The user has an additional focus'' (baseInstruction @ defaultSuffix)"
  unfolding defaultSuffix_def baseInstruction_def by code_simp

lemma phrase_in_default: "sublist defaultPhrase defaultSuffix"
  unfolding defaultSuffix_def defaultPhrase_def by code_simp


lemma suffix_after_quotes: "suffix B (A @ q # fp @ q' # B)"
  by (rule suffixI [of _ "A @ q # fp @ [q']"]) simp

lemma sublist_between_quotes: "sublist ([q] @ fp @ [q']) (A @ q # fp @ q' # B)"
proof -
  have "A @ q # fp @ q' # B = A @ ([q] @ fp @ [q']) @ B" by simp
  then show ?thesis by (simp only: sublist_appendI)
qed

lemma sublist_inside_quotes: "sublist fp (A @ q # fp @ q' # B)"
proof -
  have "A @ q # fp @ q' # B = (A @ [q]) @ fp @ (q' # B)" by simp
  then show ?thesis by (simp only: sublist_appendI)
qed

lemma mergedPrompt_focus:
  "fp \<noteq> [] \<Longrightarrow> mergedPrompt fp =
     (baseInstruction @ '' The user has an additional focus: '') @ CHR 0x22 # fp @ CHR 0x22 #
     ''. Prioritize this focus in your analysis while still covering core observations.''"
  by (simp add: mergedPrompt_def)

lemma mergedPrompt_no_focus: "mergedPrompt [] = baseInstruction @ defaultSuffix"
  by (simp add: mergedPrompt_def)

lemma phrase_only_from_focus:
  assumes "fp \<noteq> []"
  shows "sublist defaultPhrase (mergedPrompt fp) \<longleftrightarrow> sublist defaultPhrase fp"
  unfolding mergedPrompt_focus [OF assms]
  by (simp only: sublist_across_separator [OF phrase_no_quote] phrase_not_in_head
      phrase_not_in_tail simp_thms)

lemma tail_not_suffix_of_default:
  "\<not> suffix ''. Prioritize this focus in your analysis while still covering core observations.''
       defaultSuffix"
  unfolding defaultSuffix_def by code_simp

lemma default_not_suffix_of_tail:
  "\<not> suffix defaultSuffix
      ''. Prioritize this focus in your analysis while still covering core observations.''"
  unfolding defaultSuffix_def by code_simp

lemma not_suffix_default:
  assumes "fp \<noteq> []"
  shows "\<not> suffix defaultSuffix (mergedPrompt fp)"
proof
  assume s: "suffix defaultSuffix (mergedPrompt fp)"
  have "suffix ''. Prioritize this focus in your analysis while still covering core observations.''
      (mergedPrompt fp)"
    unfolding mergedPrompt_focus [OF assms] by (rule suffix_after_quotes)
  with s have "suffix defaultSuffix
        ''. Prioritize this focus in your analysis while still covering core observations.''
      \<or> suffix ''. Prioritize this focus in your analysis while still covering core observations.''
        defaultSuffix"
    by (rule suffix_same_cases)
  with tail_not_suffix_of_default default_not_suffix_of_tail show False
    by (simp only: simp_thms)
qed

lemma trim_adversarial: "trim adversarial_focus = adversarial_focus"
  by (simp add: adversarial_focus_def trim_def isWhiteSpace_def)

lemma adversarial_nonempty: "adversarial_focus \<noteq> []"
  by (simp add: adversarial_focus_def)

lemma default_in_adversarial: "sublist defaultSuffix adversarial_focus"
  unfolding defaultSuffix_def adversarial_focus_def by code_simp

lemma phrase_in_adversarial: "sublist defaultPhrase adversarial_focus"
  unfolding defaultPhrase_def adversarial_focus_def by code_simp

lemma prompt_focus:
  assumes "fp \<noteq> []"
  shows "mergedPrompt fp =
        (baseInstruction @ '' The user has an additional focus: '') @ CHR 0x22 # fp @
        CHR 0x22 #
        ''. Prioritize this focus in your analysis while still covering core observations.''
      \<and> sublist ([CHR 0x22] @ fp @ [CHR 0x22]) (mergedPrompt fp)
      \<and> \<not> suffix defaultSuffix (mergedPrompt fp)
      \<and> (sublist defaultPhrase (mergedPrompt fp) \<longleftrightarrow> sublist defaultPhrase fp)"
proof -
  have "sublist ([CHR 0x22] @ fp @ [CHR 0x22]) (mergedPrompt fp)"
    unfolding mergedPrompt_focus [OF assms] by (rule sublist_between_quotes)
  with not_suffix_default [OF assms] phrase_only_from_focus [OF assms]
    mergedPrompt_focus [OF assms]
  show ?thesis by blast
qed

lemma prompt_no_focus:
  "mergedPrompt [] = baseInstruction @ defaultSuffix
      \<and> sublist defaultPhrase (mergedPrompt [])
      \<and> \<not> sublist ''The user has an additional focus'' (mergedPrompt [])"
proof -
  have "sublist defaultPhrase (baseInstruction @ defaultSuffix)"
    using phrase_in_default sublist_append_leftI by (rule sublist_order.order_trans)
  with clause_not_in_default show ?thesis
    by (simp only: mergedPrompt_no_focus simp_thms)
qed

text \<open>The focus the handler puts into the prompt is the trimmed text of the form field.\<close>

lemma field_text_trim:
  "field_text field =
     trim (case field of None \<Rightarrow> [] | Some (StringValue s) \<Rightarrow> s
           | Some (FileValue f) \<Rightarrow> ''[object File]'')"
  by (cases field rule: field_text.cases) simp_all

lemma messages_fetch_init:
  "messages (body (fetch_init k r p v)) =
     [\<lparr> role = ''user'', content = [Text_part p, Input_video v] \<rparr>]"
  by (simp add: fetch_init_def)

lemma POST_shape_focus:
  assumes "formData req = Inr fd"
  shows "effects (POST req) = [] \<or> effects (POST req) = [ReadFormData] \<or>
    (\<exists>k v. POST req = forward req k (field_text (formData_get fd ''focusPrompt'')) v)"
  using assms unfolding POST_def misconfigured_def Let_def
  by (simp split: option.splits sum.splits) blast

lemma POST_fetched_focus:
  assumes "Fetch call \<in> set (effects (POST req))" and "formData req = Inr fd"
  shows "\<exists>k v. call = fetch_init k (referer req)
           (mergedPrompt (field_text (formData_get fd ''focusPrompt''))) v"
proof -
  from POST_shape_focus [OF assms(2)] assms(1) obtain k v where
    p: "POST req = forward req k (field_text (formData_get fd ''focusPrompt'')) v"
    by fastforce
  from assms(1) have "call = fetch_init k (referer req)
      (mergedPrompt (field_text (formData_get fd ''focusPrompt''))) v"
    unfolding p forward_effects by simp
  then show ?thesis by blast
qed

lemma clip_url_trimmed:
  "trim ''https://example.com/clip.mp4'' = ''https://example.com/clip.mp4''"
  by (simp add: trim_def isWhiteSpace_def)

subsection \<open>C7: the focus clause and the default suffix\<close>

text \<open>
  C7 as stated fails when the focus text itself quotes the default suffix: the focus is not
  empty after trimming, and the prompt the handler sends to the provider contains the
  whole default suffix, the words \<^verbatim>\<open>infer the most valuable insights\<close> among them, inside
  the quoted focus.
\<close>

theorem C7_focus_quoting_the_default_suffix:
  "effects (POST (example_request
       [(''videoUrl'', StringValue ''https://example.com/clip.mp4''),
        (''focusPrompt'', StringValue adversarial_focus)] offline))
     = [ReadFormData,
        Fetch (fetch_init ''sk-or-test'' None (mergedPrompt adversarial_focus)
                 ''https://example.com/clip.mp4'')]
   \<and> trim adversarial_focus \<noteq> []
   \<and> sublist defaultSuffix (mergedPrompt adversarial_focus)
   \<and> sublist defaultPhrase (mergedPrompt adversarial_focus)"
proof -
  have c: "sublist adversarial_focus (mergedPrompt adversarial_focus)"
    unfolding mergedPrompt_focus [OF adversarial_nonempty] by (rule sublist_inside_quotes)
  have d: "sublist defaultSuffix (mergedPrompt adversarial_focus)"
    using default_in_adversarial c by (rule sublist_order.order_trans)
  have p: "sublist defaultPhrase (mergedPrompt adversarial_focus)"
    using phrase_in_adversarial c by (rule sublist_order.order_trans)
  have e: "effects (POST (example_request
       [(''videoUrl'', StringValue ''https://example.com/clip.mp4''),
        (''focusPrompt'', StringValue adversarial_focus)] offline))
     = [ReadFormData,
        Fetch (fetch_init ''sk-or-test'' None (mergedPrompt adversarial_focus)
                 ''https://example.com/clip.mp4'')]"
    by (simp add: POST_def example_request_def formData_get_def Let_def videoUrl_def
        resolved_def clip_url_trimmed trim_adversarial forward_effects)
  from e d p show ?thesis
    by (simp only: trim_adversarial adversarial_nonempty not_False_eq_True simp_thms)
qed

text \<open>
  C7 (amended): the prompt the handler sends to the provider is a function of the trimmed
  focus alone, the focus being the text of the form field \<^verbatim>\<open>focusPrompt\<close> (empty when the
  field is absent). For every focus that is not empty after trimming, the prompt is the
  base instruction followed by the focus clause, it contains the trimmed focus between
  double quotes, it does not end with the default suffix, and the words
  \<^verbatim>\<open>infer the most valuable insights\<close> occur in it exactly when they occur in the focus text
  itself. For every focus that is empty after trimming, the prompt is the base instruction
  followed by the default suffix and contains no focus clause.
\<close>

theorem C7_prompt_assembly:
  assumes "Fetch call \<in> set (effects (POST req))" and "formData req = Inr fd"
    and "focus = (case formData_get fd ''focusPrompt'' of
                    None \<Rightarrow> [] | Some (StringValue s) \<Rightarrow> s
                  | Some (FileValue f) \<Rightarrow> ''[object File]'')"
  shows "\<exists>prompt video.
      messages (body call) =
        [\<lparr> role = ''user'', content = [Text_part prompt, Input_video video] \<rparr>]
    \<and> (trim focus \<noteq> [] \<longrightarrow>
        prompt =
          (baseInstruction @ '' The user has an additional focus: '') @ CHR 0x22 # trim focus @
          CHR 0x22 #
          ''. Prioritize this focus in your analysis while still covering core observations.''
        \<and> sublist ([CHR 0x22] @ trim focus @ [CHR 0x22]) prompt
        \<and> \<not> suffix defaultSuffix prompt
        \<and> (sublist defaultPhrase prompt \<longleftrightarrow> sublist defaultPhrase (trim focus)))
    \<and> (trim focus = [] \<longrightarrow>
        prompt = baseInstruction @ defaultSuffix
        \<and> sublist defaultPhrase prompt
        \<and> \<not> sublist ''The user has an additional focus'' prompt)"
proof -
  from POST_fetched_focus [OF assms(1,2)] obtain k v where
    c: "call = fetch_init k (referer req)
           (mergedPrompt (field_text (formData_get fd ''focusPrompt''))) v"
    by blast
  have t: "field_text (formData_get fd ''focusPrompt'') = trim focus"
    unfolding assms(3) by (rule field_text_trim)
  have m: "messages (body call) =
      [\<lparr> role = ''user'', content = [Text_part (mergedPrompt (trim focus)), Input_video v] \<rparr>]"
    unfolding c t by (rule messages_fetch_init)
  show ?thesis
  proof (cases "trim focus = []")
    case True
    from m prompt_no_focus show ?thesis
      unfolding True by blast
  next
    case False
    from m prompt_focus [OF False] False show ?thesis
      by blast
  qed
qed

theorem C7_prompt_assembly_witness:
  "effects (POST (example_request
       [(''videoUrl'', StringValue ''https://example.com/clip.mp4''),
        (''focusPrompt'', StringValue ''  analyze footwork '')] offline))
     = [ReadFormData,
        Fetch (fetch_init ''sk-or-test'' None (mergedPrompt ''analyze footwork'')
                 ''https://example.com/clip.mp4'')]
   \<and> mergedPrompt ''analyze footwork'' =
        (baseInstruction @ '' The user has an additional focus: '') @ CHR 0x22 #
        ''analyze footwork'' @ CHR 0x22 #
        ''. Prioritize this focus in your analysis while still covering core observations.''
   \<and> \<not> suffix defaultSuffix (mergedPrompt ''analyze footwork'')
   \<and> \<not> sublist defaultPhrase (mergedPrompt ''analyze footwork'')
   \<and> effects (POST (example_request
       [(''videoUrl'', StringValue ''https://example.com/clip.mp4''),
        (''focusPrompt'', StringValue ''   '')] offline))
     = [ReadFormData,
        Fetch (fetch_init ''sk-or-test'' None (baseInstruction @ defaultSuffix)
                 ''https://example.com/clip.mp4'')]"
proof -
  let ?fd1 = "[(''videoUrl'', StringValue ''https://example.com/clip.mp4''),
        (''focusPrompt'', StringValue ''  analyze footwork '')]"
  let ?fd2 = "[(''videoUrl'', StringValue ''https://example.com/clip.mp4''),
        (''focusPrompt'', StringValue ''   '')]"
  let ?call = "\<lambda>p. fetch_init ''sk-or-test'' None p ''https://example.com/clip.mp4''"
  have t: "trim ''  analyze footwork '' = ''analyze footwork''"
    by (simp add: trim_def isWhiteSpace_def)
  have b: "trim ''   '' = []"
    by (simp add: trim_def isWhiteSpace_def)
  have n: "\<not> sublist defaultPhrase ''analyze footwork''"
    unfolding defaultPhrase_def by code_simp
  have e1: "effects (POST (example_request ?fd1 offline))
      = [ReadFormData, Fetch (?call (mergedPrompt ''analyze footwork''))]"
    by (simp add: POST_def example_request_def formData_get_def Let_def videoUrl_def
        resolved_def clip_url_trimmed t forward_effects)
  have e2: "effects (POST (example_request ?fd2 offline))
      = [ReadFormData, Fetch (?call (mergedPrompt []))]"
    by (simp add: POST_def example_request_def formData_get_def Let_def videoUrl_def
        resolved_def clip_url_trimmed b forward_effects)
  have a1: "Fetch (?call (mergedPrompt ''analyze footwork''))
      \<in> set (effects (POST (example_request ?fd1 offline)))"
    by (simp only: e1) simp
  have a2: "Fetch (?call (mergedPrompt [])) \<in> set (effects (POST (example_request ?fd2 offline)))"
    by (simp only: e2) simp
  have f1: "formData (example_request ?fd1 offline) = Inr ?fd1"
    by (simp add: example_request_def)
  have f2: "formData (example_request ?fd2 offline) = Inr ?fd2"
    by (simp add: example_request_def)
  have g1: "''  analyze footwork '' = (case formData_get ?fd1 ''focusPrompt'' of
                    None \<Rightarrow> [] | Some (StringValue s) \<Rightarrow> s
                  | Some (FileValue f) \<Rightarrow> ''[object File]'')"
    by (simp add: formData_get_def)
  have g2: "''   '' = (case formData_get ?fd2 ''focusPrompt'' of
                    None \<Rightarrow> [] | Some (StringValue s) \<Rightarrow> s
                  | Some (FileValue f) \<Rightarrow> ''[object File]'')"
    by (simp add: formData_get_def)
  from C7_prompt_assembly [OF a1 f1 g1] obtain prompt1 video1 where
    m1: "messages (body (?call (mergedPrompt ''analyze footwork''))) =
       [\<lparr> role = ''user'', content = [Text_part prompt1, Input_video video1] \<rparr>]"
    and q1: "trim ''  analyze footwork '' \<noteq> [] \<longrightarrow>
        prompt1 =
          (baseInstruction @ '' The user has an additional focus: '') @ CHR 0x22 #
          trim ''  analyze footwork '' @ CHR 0x22 #
          ''. Prioritize this focus in your analysis while still covering core observations.''
        \<and> sublist ([CHR 0x22] @ trim ''  analyze footwork '' @ [CHR 0x22]) prompt1
        \<and> \<not> suffix defaultSuffix prompt1
        \<and> (sublist defaultPhrase prompt1
             \<longleftrightarrow> sublist defaultPhrase (trim ''  analyze footwork ''))"
    by blast
  from m1 have p1: "prompt1 = mergedPrompt ''analyze footwork''"
    by (simp only: messages_fetch_init list.inject message.ext_inject content_part.inject)
  from C7_prompt_assembly [OF a2 f2 g2] obtain prompt2 video2 where
    m2: "messages (body (?call (mergedPrompt []))) =
       [\<lparr> role = ''user'', content = [Text_part prompt2, Input_video video2] \<rparr>]"
    and q2: "trim ''   '' = [] \<longrightarrow> prompt2 = baseInstruction @ defaultSuffix"
    by blast
  from m2 have p2: "prompt2 = mergedPrompt []"
    by (simp only: messages_fetch_init list.inject message.ext_inject content_part.inject)
  have ne: "''analyze footwork'' \<noteq> []" by simp
  from q1 have r1: "mergedPrompt ''analyze footwork'' =
        (baseInstruction @ '' The user has an additional focus: '') @ CHR 0x22 #
        ''analyze footwork'' @ CHR 0x22 #
        ''. Prioritize this focus in your analysis while still covering core observations.''
      \<and> \<not> suffix defaultSuffix (mergedPrompt ''analyze footwork'')
      \<and> \<not> sublist defaultPhrase (mergedPrompt ''analyze footwork'')"
    unfolding t p1 using n ne by blast
  from q2 have r2: "mergedPrompt [] = baseInstruction @ defaultSuffix"
    unfolding b p2 by blast
  from e1 e2 r1 show ?thesis
    unfolding r2 by blast
qed

section \<open>Properties of the handler without streaming\<close>

lemma split_nl_nonempty: "split_nl s \<noteq> []"
  by (induction s) (auto split: list.splits)

lemma split_nl_no_newline: "CHR 0x0A \<notin> set s \<Longrightarrow> split_nl s = [s]"
  by (induction s) auto

lemma split_nl_first_newline:
  "CHR 0x0A \<notin> set a \<Longrightarrow> split_nl (a @ CHR 0x0A # b) = a # split_nl b"
  by (induction a) auto

lemma join_nl_Cons: "ps \<noteq> [] \<Longrightarrow> join_nl (p # ps) = p @ CHR 0x0A # join_nl ps"
  by (cases ps) auto

lemma join_split_nl: "join_nl (split_nl s) = s"
proof (induction s)
  case Nil
  show ?case by simp
next
  case (Cons c cs)
  show ?case
  proof (cases "c = CHR 0x0A")
    case True
    with Cons show ?thesis by (simp add: join_nl_Cons split_nl_nonempty)
  next
    case False
    obtain p ps where s: "split_nl cs = p # ps"
      using split_nl_nonempty [of cs] by (cases "split_nl cs") auto
    with Cons False show ?thesis by (cases ps) auto
  qed
qed

lemma forward_nonstreaming_effects:
  "reply_effects (forward_nonstreaming P req k fp v) =
     [ReadFormData, Fetch (fetch_init_nonstreaming k (referer req) (mergedPrompt fp) v)]"
  by (simp add: forward_nonstreaming_def Let_def)

lemma POST_nonstreaming_shape:
  "reply_effects (POST_nonstreaming P req) = [] \<or>
   reply_effects (POST_nonstreaming P req) = [ReadFormData] \<or>
    (\<exists>k fp v. POST_nonstreaming P req = forward_nonstreaming P req k fp v)"
  unfolding POST_nonstreaming_def Let_def
  by (simp split: option.splits sum.splits) blast

lemma POST_nonstreaming_fetched:
  assumes "Fetch call \<in> set (reply_effects (POST_nonstreaming P req))"
  shows "\<exists>k fp v. POST_nonstreaming P req = forward_nonstreaming P req k fp v \<and>
           call = fetch_init_nonstreaming k (referer req) (mergedPrompt fp) v"
proof -
  from POST_nonstreaming_shape [of P req] assms obtain k fp v where
    p: "POST_nonstreaming P req = forward_nonstreaming P req k fp v"
    by fastforce
  from assms have "call = fetch_init_nonstreaming k (referer req) (mergedPrompt fp) v"
    unfolding p forward_nonstreaming_effects by simp
  with p show ?thesis by blast
qed

lemma optional_chain_Some: "v \<noteq> JNull \<Longrightarrow> optional_chain (Some v) access = access v"
  by (cases v) (simp_all add: optional_chain_def)

text \<open>The content of the first choice, when it is a string that is not empty.\<close>

lemma contentText_first_choice:
  assumes "property json ''choices'' = Some (JArray (choice # choices))"
    and "property choice ''message'' = Some msg"
    and "property msg ''content'' = Some (JString raw)" and "raw \<noteq> []"
  shows "contentText json = Inr (Some (JString raw))"
proof -
  from assms(1) have j: "json \<noteq> JNull" by (cases json) simp_all
  from assms(2) have c: "choice \<noteq> JNull" by (cases choice) simp_all
  from assms(3) have m: "msg \<noteq> JNull" by (cases msg) simp_all
  have "optional_chain
          (optional_chain (optional_chain (property json ''choices'') element_0)
             (\<lambda>choice. property choice ''message''))
          (\<lambda>message. property message ''content'') = Some (JString raw)"
    using assms c m by (simp add: optional_chain_Some)
  then show ?thesis
    using j assms(4) by (cases json) (simp_all add: contentText_def Let_def)
qed

lemma summary_details_single_line:
  assumes "raw \<noteq> []" "CHR 0x0A \<notin> set raw"
  shows "summary_details json (Some (JString raw)) =
     Analysis_result
       \<lparr> summary = (if trim raw \<noteq> [] then trim raw
                    else ''AI analysis generated. See detailed breakdown below.''),
         details = raw \<rparr>"
  using assms by (simp add: summary_details_def split_nl_no_newline trim_def)

lemma summary_details_multi_line:
  assumes "CHR 0x0A \<notin> set first"
  shows "summary_details json (Some (JString (first @ CHR 0x0A # rest))) =
     Analysis_result
       \<lparr> summary = (if trim first \<noteq> [] then trim first
                    else ''AI analysis generated. See detailed breakdown below.''),
         details = (if trim rest \<noteq> [] then trim rest else first @ CHR 0x0A # rest) \<rparr>"
  using assms by (simp add: summary_details_def split_nl_first_newline join_split_nl)

lemma example_nonstreaming:
  "POST_nonstreaming P
     (example_request [(''videoUrl'', StringValue ''https://example.com/clip.mp4'')] f)
   = forward_nonstreaming P
       (example_request [(''videoUrl'', StringValue ''https://example.com/clip.mp4'')] f)
       ''sk-or-test'' [] ''https://example.com/clip.mp4''"
  by (simp add: POST_nonstreaming_def example_request_def formData_get_def Let_def videoUrl_def
      resolved_def clip_url_trimmed) (simp add: trim_def)

lemma example_completed:
  "reply (POST_nonstreaming (parses_to (completion raw))
     (example_request [(''videoUrl'', StringValue ''https://example.com/clip.mp4'')]
        (completed_with body_text)))
   = summary_details (completion raw) (Some (JString raw))"
  unfolding example_nonstreaming
  by (simp add: forward_nonstreaming_def Let_def example_request_def completed_with_def
      answers_def ok_def parses_to_def contentText_def completion_def optional_chain_def)

subsection \<open>C8: summary and details\<close>

text \<open>
  The derivation of summary and details that C8 describes is that of the handler without
  streaming (lines 171 to 174). C8 as stated fails for a single line of output with white
  space at an end: the summary is the trimmed line, not the text itself. For the answer
  \<^verbatim>\<open> Line one\<close>, with a leading space, the summary is \<^verbatim>\<open>Line one\<close> and the details are the
  text as it came.
\<close>

theorem C8_summary_of_a_padded_line_is_trimmed:
  "reply (POST_nonstreaming (parses_to (completion '' Line one''))
     (example_request [(''videoUrl'', StringValue ''https://example.com/clip.mp4'')]
        (completed_with ''{...}'')))
   = Analysis_result \<lparr> summary = ''Line one'', details = '' Line one'' \<rparr>"
  by (simp add: example_completed summary_details_def trim_def isWhiteSpace_def)

text \<open>
  C8 (amended): when the first choice of the provider's answer has a content that is a
  string and not empty, the handler splits that raw text at its first line feed. For raw
  text with no line feed, the summary is that text trimmed, or the sentence
  \<^verbatim>\<open>AI analysis generated. See detailed breakdown below.\<close> if nothing is left, and the
  details are the full raw text; so summary and details both equal the text when it has no
  white space at either end. For raw text with a line feed, the summary is the first line
  trimmed, or that sentence if the line is empty after trimming, and the details are the
  remaining lines joined and trimmed, or the full raw text if that is empty.
\<close>

theorem C8_summary_and_details:
  assumes "Fetch call \<in> set (reply_effects (POST_nonstreaming JSON_parse req))"
    and "fetch req call = Inr res" and "ok res"
    and "text_result res = Inr body_text" and "JSON_parse body_text = Inr json"
    and "property json ''choices'' = Some (JArray (choice # choices))"
    and "property choice ''message'' = Some msg"
    and "property msg ''content'' = Some (JString raw)" and "raw \<noteq> []"
  shows "(CHR 0x0A \<notin> set raw \<longrightarrow>
            reply (POST_nonstreaming JSON_parse req) =
              Analysis_result
                \<lparr> summary = (if trim raw \<noteq> [] then trim raw
                             else ''AI analysis generated. See detailed breakdown below.''),
                  details = raw \<rparr>)
       \<and> (CHR 0x0A \<notin> set raw \<and> trim raw = raw \<longrightarrow>
            reply (POST_nonstreaming JSON_parse req) =
              Analysis_result \<lparr> summary = raw, details = raw \<rparr>)
       \<and> (raw = first @ CHR 0x0A # rest \<and> CHR 0x0A \<notin> set first \<longrightarrow>
            reply (POST_nonstreaming JSON_parse req) =
              Analysis_result
                \<lparr> summary = (if trim first \<noteq> [] then trim first
                             else ''AI analysis generated. See detailed breakdown below.''),
                  details = (if trim rest \<noteq> [] then trim rest else raw) \<rparr>)"
proof -
  from POST_nonstreaming_fetched [OF assms(1)] obtain k fp v where
    p: "POST_nonstreaming JSON_parse req = forward_nonstreaming JSON_parse req k fp v" and
    c: "call = fetch_init_nonstreaming k (referer req) (mergedPrompt fp) v"
    by blast
  from assms(2) have f:
    "fetch req (fetch_init_nonstreaming k (referer req) (mergedPrompt fp) v) = Inr res"
    by (simp only: c)
  have t: "contentText json = Inr (Some (JString raw))"
    using assms(6-9) by (rule contentText_first_choice)
  have r: "reply (POST_nonstreaming JSON_parse req) = summary_details json (Some (JString raw))"
    by (simp only: p forward_nonstreaming_def Let_def f assms(3,4,5) t sum.case if_True
        if_False simp_thms outcome_nonstreaming.simps)
  show ?thesis
    unfolding r
    using assms(9) summary_details_single_line [of raw json]
      summary_details_multi_line [of first json rest]
    by auto
qed

theorem C8_summary_and_details_witness:
  "reply (POST_nonstreaming
       (parses_to (completion (''Line one'' @ [CHR 0x0A] @ ''Line two'' @ [CHR 0x0A] @ ''Line three'')))
       (example_request [(''videoUrl'', StringValue ''https://example.com/clip.mp4'')]
          (completed_with ''{...}'')))
     = Analysis_result
         \<lparr> summary = ''Line one'', details = ''Line two'' @ [CHR 0x0A] @ ''Line three'' \<rparr>
   \<and> reply (POST_nonstreaming (parses_to (completion ''Line one''))
       (example_request [(''videoUrl'', StringValue ''https://example.com/clip.mp4'')]
          (completed_with ''{...}'')))
     = Analysis_result \<lparr> summary = ''Line one'', details = ''Line one'' \<rparr>"
proof -
  let ?res = "\<lparr> status = 200, text_result = Inr ''{...}'', body_stream = None \<rparr>"
  let ?req = "example_request [(''videoUrl'', StringValue ''https://example.com/clip.mp4'')]
      (completed_with ''{...}'')"
  let ?call = "fetch_init_nonstreaming ''sk-or-test'' None (mergedPrompt [])
      ''https://example.com/clip.mp4''"
  let ?choice = "\<lambda>raw. JObject
              [(''index'', JNumber 0),
               (''message'',
                JObject [(''role'', JString ''assistant''), (''content'', JString raw)])]"
  let ?msg = "\<lambda>raw. JObject [(''role'', JString ''assistant''), (''content'', JString raw)]"
  let ?raw = "''Line one'' @ [CHR 0x0A] @ ''Line two'' @ [CHR 0x0A] @ ''Line three''"
  have e: "reply_effects (POST_nonstreaming P ?req) = [ReadFormData, Fetch ?call]" for P
    unfolding example_nonstreaming forward_nonstreaming_effects
    by (simp add: example_request_def)
  have a: "Fetch ?call \<in> set (reply_effects (POST_nonstreaming P ?req))" for P
    by (simp only: e) simp
  have f: "fetch ?req ?call = Inr ?res"
    by (simp add: example_request_def completed_with_def answers_def)
  have k: "ok ?res"
    by (simp add: ok_def)
  have t: "text_result ?res = Inr ''{...}''"
    by simp
  have p: "parses_to (completion raw) ''{...}'' = Inr (completion raw)" for raw
    by (simp add: parses_to_def)
  have c: "property (completion raw) ''choices'' = Some (JArray (?choice raw # []))" for raw
    by (simp add: completion_def)
  have m: "property (?choice raw) ''message'' = Some (?msg raw)" for raw
    by simp
  have n: "property (?msg raw) ''content'' = Some (JString raw)" for raw
    by simp
  have t1: "trim ''Line one'' = ''Line one''"
    by (simp add: trim_def isWhiteSpace_def)
  have t2: "trim (''Line two'' @ [CHR 0x0A] @ ''Line three'')
      = ''Line two'' @ [CHR 0x0A] @ ''Line three''"
    by (simp add: trim_def isWhiteSpace_def)
  have ne: "?raw \<noteq> []" "''Line one'' \<noteq> []"
    by simp_all
  have l: "CHR 0x0A \<notin> set ''Line one''"
    by simp
  have d: "?raw = ''Line one'' @ CHR 0x0A # (''Line two'' @ [CHR 0x0A] @ ''Line three'')"
    by simp
  note w1 = C8_summary_and_details [OF a [of "parses_to (completion ?raw)"] f k t
      p [of ?raw] c [of ?raw] m [of ?raw] n [of ?raw] ne(1),
      of "''Line one''" "''Line two'' @ [CHR 0x0A] @ ''Line three''",
      THEN conjunct2, THEN conjunct2]
  from w1 d l have 1: "reply (POST_nonstreaming (parses_to (completion ?raw)) ?req)
     = Analysis_result
         \<lparr> summary = (if trim ''Line one'' \<noteq> [] then trim ''Line one''
                             else ''AI analysis generated. See detailed breakdown below.''),
           details = (if trim (''Line two'' @ [CHR 0x0A] @ ''Line three'') \<noteq> []
                      then trim (''Line two'' @ [CHR 0x0A] @ ''Line three'')
                      else ?raw) \<rparr>"
    by blast
  note w2 = C8_summary_and_details [OF a [of "parses_to (completion ''Line one'')"] f k t
      p [of "''Line one''"] c [of "''Line one''"] m [of "''Line one''"] n [of "''Line one''"]
      ne(2), of "[]" "[]",
      THEN conjunct2, THEN conjunct1]
  from w2 l t1 have 2: "reply (POST_nonstreaming (parses_to (completion ''Line one'')) ?req)
     = Analysis_result \<lparr> summary = ''Line one'', details = ''Line one'' \<rparr>"
    by blast
  have 3: "reply (POST_nonstreaming (parses_to (completion ?raw)) ?req)
     = Analysis_result
         \<lparr> summary = ''Line one'', details = ''Line two'' @ [CHR 0x0A] @ ''Line three'' \<rparr>"
    unfolding 1 t1 t2 by simp
  from 3 2 show ?thesis by (rule conjI)
qed

section \<open>Properties of the data URL\<close>

lemma b64_table: "\<forall>i<64. b64_index (b64_char i) = Some i \<and> b64_char i \<noteq> CHR ''=''"
  by code_simp

lemma b64_index_char: "i < 64 \<Longrightarrow> b64_index (b64_char i) = Some i"
  using b64_table by blast

lemma b64_char_not_pad: "i < 64 \<Longrightarrow> b64_char i \<noteq> CHR ''=''"
  using b64_table by blast

lemma unat_byte_less: "unat (a :: byte) < 256"
  using unsigned_less [of a, where 'a = nat] by simp

lemma sextets:
  fixes x y z :: nat
  assumes "x < 256" "y < 256" "z < 256"
  shows "x div 4 < 64" "x mod 4 * 16 < 64" "x mod 4 * 16 + y div 16 < 64"
    "y mod 16 * 4 < 64" "y mod 16 * 4 + z div 64 < 64" "z mod 64 < 64"
  using assms by simp_all

lemma octet_1: fixes x :: nat shows "x div 4 * 4 + (x mod 4 * 16) div 16 = x"
  by simp

lemma octet_2: fixes x y :: nat assumes "y < 256"
  shows "x div 4 * 4 + (x mod 4 * 16 + y div 16) div 16 = x"
proof -
  have "y div 16 < 16" using assms by simp
  then have "(x mod 4 * 16 + y div 16) div 16 = x mod 4" by simp
  then show ?thesis by simp
qed

lemma octet_3: fixes x y :: nat assumes "y < 256"
  shows "(x mod 4 * 16 + y div 16) mod 16 * 16 + (y mod 16 * 4) div 4 = y"
proof -
  have "y div 16 < 16" using assms by simp
  then have "(x mod 4 * 16 + y div 16) mod 16 = y div 16" by simp
  then show ?thesis by simp
qed

lemma octet_4: fixes x y z :: nat assumes "y < 256" "z < 256"
  shows "(x mod 4 * 16 + y div 16) mod 16 * 16 + (y mod 16 * 4 + z div 64) div 4 = y"
proof -
  have "y div 16 < 16" using assms by simp
  then have a: "(x mod 4 * 16 + y div 16) mod 16 = y div 16" by simp
  have "z div 64 < 4" using assms by simp
  then have b: "(y mod 16 * 4 + z div 64) div 4 = y mod 16" by simp
  show ?thesis unfolding a b by simp
qed

lemma octet_5: fixes y z :: nat assumes "z < 256"
  shows "(y mod 16 * 4 + z div 64) mod 4 * 64 + z mod 64 = z"
proof -
  have "z div 64 < 4" using assms by simp
  then have b: "(y mod 16 * 4 + z div 64) mod 4 = z div 64" by simp
  show ?thesis unfolding b by simp
qed

lemma decode_one:
  assumes "i < 64" "j < 64"
  shows "base64_decode [b64_char i, b64_char j, CHR ''='', CHR ''='']
     = Some [of_nat (i * 4 + j div 16)]"
  by (simp add: b64_index_char assms)

lemma decode_two:
  assumes "i < 64" "j < 64" "k < 64"
  shows "base64_decode [b64_char i, b64_char j, b64_char k, CHR ''='']
     = Some [of_nat (i * 4 + j div 16), of_nat (j mod 16 * 16 + k div 4)]"
  by (simp add: b64_index_char b64_char_not_pad assms)

lemma decode_three:
  assumes "i < 64" "j < 64" "k < 64" "l < 64"
  shows "base64_decode (b64_char i # b64_char j # b64_char k # b64_char l # rest)
     = (case base64_decode rest of
          None \<Rightarrow> None
        | Some bs \<Rightarrow> Some (of_nat (i * 4 + j div 16) # of_nat (j mod 16 * 16 + k div 4)
                          # of_nat (k mod 4 * 64 + l) # bs))"
  by (simp add: b64_index_char b64_char_not_pad assms split: option.splits)

lemma base64_roundtrip: "base64_decode (toString_base64 bs) = Some bs"
proof (induction bs rule: toString_base64.induct)
  case 1
  show ?case by simp
next
  case (2 a)
  note s = sextets [OF unat_byte_less [of a] unat_byte_less [of a] unat_byte_less [of a]]
  show ?case
    by (simp only: toString_base64.simps decode_one [OF s(1) s(2)] octet_1 of_nat_unat
        ucast_id)
next
  case (3 a b)
  note s = sextets [OF unat_byte_less [of a] unat_byte_less [of b] unat_byte_less [of b]]
  show ?case
    by (simp only: toString_base64.simps decode_two [OF s(1) s(3) s(4)]
        octet_2 [OF unat_byte_less] octet_3 [OF unat_byte_less] of_nat_unat ucast_id)
next
  case (4 a b c rest)
  note s = sextets [OF unat_byte_less [of a] unat_byte_less [of b] unat_byte_less [of c]]
  show ?case
    by (simp only: toString_base64.simps append_Cons append_Nil
        decode_three [OF s(1) s(3) s(5) s(6)] "4.IH" option.case
        octet_2 [OF unat_byte_less] octet_4 [OF unat_byte_less unat_byte_less]
        octet_5 [OF unat_byte_less] of_nat_unat ucast_id)
qed

lemma strip_prefix_append: "strip_prefix p (p @ s) = Some s"
  by (simp add: strip_prefix_def)

lemma dataUrl_roundtrip:
  "dataUrl_bytes (if type f \<noteq> [] then type f else ''video/mp4'') (fileToDataUrl f)
     = Some (bytes f)"
proof -
  have h: "fileToDataUrl f =
      (''data:'' @ (if type f \<noteq> [] then type f else ''video/mp4'') @ '';base64,'')
      @ toString_base64 (bytes f)"
    by (simp add: fileToDataUrl_def Let_def)
  show ?thesis
    by (simp only: dataUrl_bytes_def h strip_prefix_append option.case base64_roundtrip)
qed


lemma fileToDataUrl_example:
  "fileToDataUrl (clip [1, 2, 3]) = ''data:video/mp4;base64,AQID''"
  by code_simp

lemma fileToDataUrl_example_2:
  "fileToDataUrl \<lparr> type = [], bytes = [255, 254] \<rparr> = ''data:video/mp4;base64,//4=''"
  by code_simp

subsection \<open>C6: the data URL round-trips\<close>

text \<open>
  C6: for every non-empty file of at most the size ceiling (so for every one under it) the
  handler builds the data URL of the file and sends it to the provider, and the data URL
  round-trips: stripping the prefix \<^verbatim>\<open>data:{mimeType};base64,\<close>, where the MIME type is the
  file's declared type or \<^verbatim>\<open>video/mp4\<close> when it declares none, and decoding the rest as
  base64 gives back exactly the bytes of the file.
\<close>

theorem C6_data_url_round_trips:
  assumes "OPENROUTER_API_KEY req = Some k" "k \<noteq> []" "formData req = Inr fd"
    and "formData_get fd ''video'' = Some (FileValue f)"
    and "0 < file_size f" "file_size f \<le> maxBytes"
  shows "POST req =
           forward req k (field_text (formData_get fd ''focusPrompt'')) (fileToDataUrl f)
       \<and> effects (POST req) =
           [ReadFormData,
            Fetch (fetch_init k (referer req)
                     (mergedPrompt (field_text (formData_get fd ''focusPrompt'')))
                     (fileToDataUrl f))]
       \<and> dataUrl_bytes (if type f \<noteq> [] then type f else ''video/mp4'') (fileToDataUrl f)
           = Some (bytes f)"
  using POST_file [OF assms(1-4)] assms(5,6) dataUrl_roundtrip [of f]
  by (simp add: forward_effects)

theorem C6_data_url_round_trips_witness:
  "effects (POST (example_request [(''video'', FileValue (clip [1, 2, 3]))] offline)) =
     [ReadFormData,
      Fetch (fetch_init ''sk-or-test'' None (mergedPrompt []) ''data:video/mp4;base64,AQID'')]
   \<and> dataUrl_bytes ''video/mp4'' ''data:video/mp4;base64,AQID'' = Some [1, 2, 3]"
  using C6_data_url_round_trips [of "example_request [(''video'', FileValue (clip [1, 2, 3]))] offline"
      "''sk-or-test''" "[(''video'', FileValue (clip [1, 2, 3]))]" "clip [1, 2, 3]"]
    fileToDataUrl_example
  by (simp add: example_request_def formData_get_def file_size_def maxBytes_def trim_def
      clip_def forward_effects)

section \<open>Properties of the streamed response\<close>

subsection \<open>Bits and bytes\<close>

lemma and_63: "(x::nat) AND 0x3F = x mod 64"
proof -
  have "x AND mask 6 = x mod 2 ^ 6"
    by (simp only: take_bit_eq_mask [symmetric] take_bit_eq_mod)
  then show ?thesis by (simp add: mask_eq_exp_minus_1)
qed

lemma and_31: "(x::nat) AND 0x1F = x mod 32"
proof -
  have "x AND mask 5 = x mod 2 ^ 5"
    by (simp only: take_bit_eq_mask [symmetric] take_bit_eq_mod)
  then show ?thesis by (simp add: mask_eq_exp_minus_1)
qed

lemma and_15: "(x::nat) AND 0xF = x mod 16"
proof -
  have "x AND mask 4 = x mod 2 ^ 4"
    by (simp only: take_bit_eq_mask [symmetric] take_bit_eq_mod)
  then show ?thesis by (simp add: mask_eq_exp_minus_1)
qed

lemma and_7: "(x::nat) AND 0x7 = x mod 8"
proof -
  have "x AND mask 3 = x mod 2 ^ 3"
    by (simp only: take_bit_eq_mask [symmetric] take_bit_eq_mod)
  then show ?thesis by (simp add: mask_eq_exp_minus_1)
qed

lemma push_6_or:
  fixes c y :: nat
  assumes "y < 64"
  shows "push_bit 6 c OR y = c * 64 + y"
proof -
  have y: "take_bit 6 y = y" using assms by (simp add: take_bit_nat_eq_self)
  have "push_bit 6 c AND take_bit 6 y = 0"
    by (auto simp: bit_eq_iff bit_simps)
  then have "push_bit 6 c + y = push_bit 6 c OR y"
    unfolding y by (rule disjunctive_add_eq_or)
  then show ?thesis by (simp add: push_bit_eq_mult)
qed

lemma or_128:
  fixes y :: nat
  assumes "y < 64"
  shows "0x80 OR y = 128 + y"
  using push_6_or [OF assms, of 2] by (simp add: push_bit_eq_mult)

lemma unat_of_nat_byte: "n < 256 \<Longrightarrow> unat (of_nat n :: byte) = n"
  by (simp add: unat_of_nat)

subsection \<open>The decoder on well-formed sequences\<close>

lemma init_fields:
  "code_point utf8_decoder_init = 0" "bytes_seen utf8_decoder_init = 0"
  "bytes_needed utf8_decoder_init = 0" "lower_boundary utf8_decoder_init = 0x80"
  "upper_boundary utf8_decoder_init = 0xBF"
  by (simp_all add: utf8_decoder_init_def)

lemma lead_ascii: "b \<le> 0x7F \<Longrightarrow> utf8_lead d b = (d, [b])"
  by (simp add: utf8_lead_def)

lemma lead_2: "0xC2 \<le> b \<Longrightarrow> b \<le> 0xDF \<Longrightarrow>
  utf8_lead d b = (d\<lparr> bytes_needed := 1, code_point := b mod 32 \<rparr>, [])"
  by (simp add: utf8_lead_def and_31)

lemma lead_3: "0xE0 \<le> b \<Longrightarrow> b \<le> 0xEF \<Longrightarrow>
  utf8_lead d b =
    (d\<lparr> lower_boundary := (if b = 0xE0 then 0xA0 else lower_boundary d),
        upper_boundary := (if b = 0xED then 0x9F else upper_boundary d),
        bytes_needed := 2, code_point := b mod 16 \<rparr>, [])"
  by (simp add: utf8_lead_def and_15)

lemma lead_4: "0xF0 \<le> b \<Longrightarrow> b \<le> 0xF4 \<Longrightarrow>
  utf8_lead d b =
    (d\<lparr> lower_boundary := (if b = 0xF0 then 0x90 else lower_boundary d),
        upper_boundary := (if b = 0xF4 then 0x8F else upper_boundary d),
        bytes_needed := 3, code_point := b mod 8 \<rparr>, [])"
  by (simp add: utf8_lead_def and_7)

lemma handler_start:
  "b < 256 \<Longrightarrow> bytes_needed d = 0 \<Longrightarrow> utf8_handler d (of_nat b) = utf8_lead d b"
  by (simp add: utf8_handler_def unat_of_nat_byte)

lemma handler_continue:
  assumes "b < 256" "bytes_needed d \<noteq> 0" "lower_boundary d \<le> b" "b \<le> upper_boundary d"
    "Suc (bytes_seen d) \<noteq> bytes_needed d"
  shows "utf8_handler d (of_nat b) =
    (d\<lparr> lower_boundary := 0x80, upper_boundary := 0xBF,
        code_point := code_point d * 64 + b mod 64, bytes_seen := Suc (bytes_seen d) \<rparr>, [])"
  using assms by (simp add: utf8_handler_def unat_of_nat_byte Let_def and_63 push_6_or)

lemma handler_last:
  assumes "b < 256" "bytes_needed d \<noteq> 0" "lower_boundary d \<le> b" "b \<le> upper_boundary d"
    "Suc (bytes_seen d) = bytes_needed d"
  shows "utf8_handler d (of_nat b) = (utf8_decoder_init, [code_point d * 64 + b mod 64])"
  using assms by (simp add: utf8_handler_def unat_of_nat_byte Let_def and_63 push_6_or)

lemma decode_1:
  assumes "b \<le> 0x7F"
  shows "utf8_run utf8_decoder_init [of_nat b] = (utf8_decoder_init, [b])"
  using assms by (simp add: handler_start lead_ascii init_fields)

lemma decode_2:
  assumes "0xC2 \<le> b1" "b1 \<le> 0xDF" "0x80 \<le> b2" "b2 \<le> 0xBF"
  shows "utf8_run utf8_decoder_init [of_nat b1, of_nat b2] =
    (utf8_decoder_init, [b1 mod 32 * 64 + b2 mod 64])"
proof -
  let ?d1 = "utf8_decoder_init\<lparr> bytes_needed := 1, code_point := b1 mod 32 \<rparr>"
  have 1: "utf8_handler utf8_decoder_init (of_nat b1) = (?d1, [])"
    using assms by (simp add: handler_start lead_2 init_fields)
  have 2: "utf8_handler ?d1 (of_nat b2) = (utf8_decoder_init, [b1 mod 32 * 64 + b2 mod 64])"
    using assms handler_last [of b2 "?d1"] by (simp add: init_fields)
  show ?thesis by (simp only: utf8_run.simps 1 2 prod.case append_Nil append_Nil2)
qed

lemma decode_3:
  assumes "0xE0 \<le> b1" "b1 \<le> 0xEF"
    "(if b1 = 0xE0 then 0xA0 else 0x80) \<le> b2" "b2 \<le> (if b1 = 0xED then 0x9F else 0xBF)"
    "0x80 \<le> b3" "b3 \<le> 0xBF"
  shows "utf8_run utf8_decoder_init [of_nat b1, of_nat b2, of_nat b3] =
    (utf8_decoder_init, [(b1 mod 16 * 64 + b2 mod 64) * 64 + b3 mod 64])"
proof -
  let ?d1 = "utf8_decoder_init\<lparr>
        lower_boundary := (if b1 = 0xE0 then 0xA0 else 0x80),
        upper_boundary := (if b1 = 0xED then 0x9F else 0xBF),
        bytes_needed := 2, code_point := b1 mod 16 \<rparr>"
  let ?d2 = "?d1\<lparr> lower_boundary := 0x80, upper_boundary := 0xBF,
        code_point := b1 mod 16 * 64 + b2 mod 64, bytes_seen := Suc 0 \<rparr>"
  have b2: "b2 < 256" using assms(4) by (simp split: if_splits)
  have 1: "utf8_handler utf8_decoder_init (of_nat b1) = (?d1, [])"
    using assms(1,2) by (simp add: handler_start lead_3 init_fields)
  have 2: "utf8_handler ?d1 (of_nat b2) = (?d2, [])"
    using assms(3,4) b2 handler_continue [of b2 "?d1"] by (simp add: init_fields)
  have 3: "utf8_handler ?d2 (of_nat b3) =
      (utf8_decoder_init, [(b1 mod 16 * 64 + b2 mod 64) * 64 + b3 mod 64])"
    using assms(5,6) handler_last [of b3 "?d2"] by (simp add: init_fields)
  show ?thesis by (simp only: utf8_run.simps 1 2 3 prod.case append_Nil append_Nil2)
qed

lemma decode_4:
  assumes "0xF0 \<le> b1" "b1 \<le> 0xF4"
    "(if b1 = 0xF0 then 0x90 else 0x80) \<le> b2" "b2 \<le> (if b1 = 0xF4 then 0x8F else 0xBF)"
    "0x80 \<le> b3" "b3 \<le> 0xBF" "0x80 \<le> b4" "b4 \<le> 0xBF"
  shows "utf8_run utf8_decoder_init [of_nat b1, of_nat b2, of_nat b3, of_nat b4] =
    (utf8_decoder_init, [((b1 mod 8 * 64 + b2 mod 64) * 64 + b3 mod 64) * 64 + b4 mod 64])"
proof -
  let ?d1 = "utf8_decoder_init\<lparr>
        lower_boundary := (if b1 = 0xF0 then 0x90 else 0x80),
        upper_boundary := (if b1 = 0xF4 then 0x8F else 0xBF),
        bytes_needed := 3, code_point := b1 mod 8 \<rparr>"
  let ?d2 = "?d1\<lparr> lower_boundary := 0x80, upper_boundary := 0xBF,
        code_point := b1 mod 8 * 64 + b2 mod 64, bytes_seen := Suc 0 \<rparr>"
  let ?d3 = "?d2\<lparr> lower_boundary := 0x80, upper_boundary := 0xBF,
        code_point := (b1 mod 8 * 64 + b2 mod 64) * 64 + b3 mod 64, bytes_seen := Suc (Suc 0) \<rparr>"
  have b2: "b2 < 256" using assms(4) by (simp split: if_splits)
  have 1: "utf8_handler utf8_decoder_init (of_nat b1) = (?d1, [])"
    using assms(1,2) by (simp add: handler_start lead_4 init_fields)
  have 2: "utf8_handler ?d1 (of_nat b2) = (?d2, [])"
    using assms(3,4) b2 handler_continue [of b2 "?d1"] by (simp add: init_fields)
  have 3: "utf8_handler ?d2 (of_nat b3) = (?d3, [])"
    using assms(5,6) handler_continue [of b3 "?d2"] by (simp add: init_fields)
  have 4: "utf8_handler ?d3 (of_nat b4) =
      (utf8_decoder_init, [((b1 mod 8 * 64 + b2 mod 64) * 64 + b3 mod 64) * 64 + b4 mod 64])"
    using assms(7,8) handler_last [of b4 "?d3"] by (simp add: init_fields)
  show ?thesis by (simp only: utf8_run.simps 1 2 3 4 prod.case append_Nil append_Nil2)
qed

subsection \<open>Encoding and decoding a scalar value\<close>

lemma cont_byte: "0x80 OR ((x::nat) AND 0x3F) = 128 + x mod 64"
  by (simp add: and_63 or_128)

lemma continuation_1: "continuation_bytes cp (Suc 0) = [of_nat (128 + cp mod 64)]"
  by (simp add: cont_byte)

lemma continuation_2:
  "continuation_bytes cp (Suc (Suc 0)) =
     [of_nat (128 + cp div 64 mod 64), of_nat (128 + cp mod 64)]"
  by (simp add: cont_byte drop_bit_eq_div)

lemma continuation_3:
  "continuation_bytes cp (Suc (Suc (Suc 0))) =
     [of_nat (128 + cp div 4096 mod 64), of_nat (128 + cp div 64 mod 64),
      of_nat (128 + cp mod 64)]"
  by (simp add: cont_byte drop_bit_eq_div)

lemma mod_lead:
  fixes x :: nat
  shows "x < 32 \<Longrightarrow> (x + 192) mod 32 = x" "x < 16 \<Longrightarrow> (x + 224) mod 16 = x"
    "x \<le> 4 \<Longrightarrow> (x + 240) mod 8 = x" "x < 64 \<Longrightarrow> (128 + x) mod 64 = x"
proof -
  have "(x + 6 * 32) mod 32 = x mod 32" by (rule mod_mult_self1)
  then show "x < 32 \<Longrightarrow> (x + 192) mod 32 = x" by simp
  have "(x + 14 * 16) mod 16 = x mod 16" by (rule mod_mult_self1)
  then show "x < 16 \<Longrightarrow> (x + 224) mod 16 = x" by simp
  have "(x + 30 * 8) mod 8 = x mod 8" by (rule mod_mult_self1)
  then show "x \<le> 4 \<Longrightarrow> (x + 240) mod 8 = x" by simp
  have "(x + 2 * 64) mod 64 = x mod 64" by (rule mod_mult_self1)
  then show "x < 64 \<Longrightarrow> (128 + x) mod 64 = x" by (simp add: add.commute)
qed

lemma div_4096: "(cp::nat) div 64 = cp div 4096 * 64 + cp div 64 mod 64"
proof -
  have "cp div 4096 = cp div 64 div 64" by (simp add: div_mult2_eq [symmetric])
  then show ?thesis by simp
qed

lemma div_262144: "(cp::nat) div 4096 = cp div 262144 * 64 + cp div 4096 mod 64"
proof -
  have "cp div 262144 = cp div 4096 div 64" by (simp add: div_mult2_eq [symmetric])
  then show ?thesis by simp
qed

lemma encode_1: "cp \<le> 0x7F \<Longrightarrow> utf8_encode cp = [of_nat cp]"
  by (simp add: utf8_encode_def)

lemma encode_2:
  "0x80 \<le> cp \<Longrightarrow> cp \<le> 0x7FF \<Longrightarrow>
     utf8_encode cp = [of_nat (cp div 64 + 192), of_nat (128 + cp mod 64)]"
  by (simp add: utf8_encode_def drop_bit_eq_div continuation_1 del: continuation_bytes.simps)

lemma encode_3:
  "utf8_encode cp =
       [of_nat (cp div 4096 + 224), of_nat (128 + cp div 64 mod 64), of_nat (128 + cp mod 64)]"
  if "0x800 \<le> cp" "cp \<le> 0xFFFF"
proof -
  have "continuation_bytes cp 2 = continuation_bytes cp (Suc (Suc 0))"
    by (simp only: numeral_2_eq_2)
  then show ?thesis
    using that by (simp add: utf8_encode_def drop_bit_eq_div continuation_2
        del: continuation_bytes.simps)
qed

lemma encode_4:
  "utf8_encode cp =
       [of_nat (cp div 262144 + 240), of_nat (128 + cp div 4096 mod 64),
        of_nat (128 + cp div 64 mod 64), of_nat (128 + cp mod 64)]"
  if "0x10000 \<le> cp"
proof -
  have "continuation_bytes cp 3 = continuation_bytes cp (Suc (Suc (Suc 0)))"
    by (simp only: numeral_3_eq_3)
  then show ?thesis
    using that by (simp add: utf8_encode_def drop_bit_eq_div continuation_3
        del: continuation_bytes.simps)
qed

lemma roundtrip_1:
  assumes "cp \<le> 0x7F"
  shows "utf8_run utf8_decoder_init (utf8_encode cp) = (utf8_decoder_init, [cp])"
  using assms by (simp only: encode_1 decode_1)

lemma roundtrip_2:
  assumes "0x80 \<le> cp" "cp \<le> 0x7FF"
  shows "utf8_run utf8_decoder_init (utf8_encode cp) = (utf8_decoder_init, [cp])"
proof -
  define q r where "q = cp div 64" and "r = cp mod 64"
  have cp: "cp = q * 64 + r" and r: "r < 64" by (simp_all add: q_def r_def)
  have q: "2 \<le> q" "q < 32" using assms by (simp_all add: q_def)
  have a: "0xC2 \<le> q + 192" "q + 192 \<le> 0xDF" "0x80 \<le> 128 + r" "128 + r \<le> 0xBF"
    using q r by simp_all
  have m: "(q + 192) mod 32 = q" "(128 + r) mod 64 = r"
    using q r by (simp_all only: mod_lead)
  show ?thesis
    unfolding encode_2 [OF assms] q_def [symmetric] r_def [symmetric]
    by (simp only: decode_2 [OF a] m cp)
qed

lemma roundtrip_3:
  assumes "0x800 \<le> cp" "cp \<le> 0xFFFF" "\<not> (0xD800 \<le> cp \<and> cp \<le> 0xDFFF)"
  shows "utf8_run utf8_decoder_init (utf8_encode cp) = (utf8_decoder_init, [cp])"
proof -
  define p q r where "p = cp div 4096" and "q = cp div 64 mod 64" and "r = cp mod 64"
  have d: "cp div 64 = p * 64 + q"
    unfolding p_def q_def by (rule div_4096)
  have cp: "cp = (p * 64 + q) * 64 + r"
    unfolding d [symmetric] r_def by simp
  have r: "r < 64" and q: "q < 64" by (simp_all add: q_def r_def)
  have p: "p < 16" using assms by (simp add: p_def) 
  have lo: "p = 0 \<Longrightarrow> 32 \<le> q" using assms(1) cp r by simp
  have hi: "p = 13 \<Longrightarrow> q \<le> 31" using assms(3) cp r q by simp
  have a: "0xE0 \<le> p + 224" "p + 224 \<le> 0xEF"
    "(if p + 224 = 0xE0 then 0xA0 else 0x80) \<le> 128 + q"
    "128 + q \<le> (if p + 224 = 0xED then 0x9F else 0xBF)"
    "0x80 \<le> 128 + r" "128 + r \<le> 0xBF"
    using p q r lo hi by simp_all
  have m: "(p + 224) mod 16 = p" "(128 + q) mod 64 = q" "(128 + r) mod 64 = r"
    using p q r by (simp_all only: mod_lead)
  show ?thesis
    unfolding encode_3 [OF assms(1,2)] p_def [symmetric] q_def [symmetric] r_def [symmetric]
    by (simp only: decode_3 [OF a] m cp)
qed

lemma roundtrip_4:
  assumes "0x10000 \<le> cp" "cp \<le> 0x10FFFF"
  shows "utf8_run utf8_decoder_init (utf8_encode cp) = (utf8_decoder_init, [cp])"
proof -
  define s p q r where "s = cp div 262144" and "p = cp div 4096 mod 64"
    and "q = cp div 64 mod 64" and "r = cp mod 64"
  have d1: "cp div 64 = cp div 4096 * 64 + q"
    unfolding q_def by (rule div_4096)
  have d2: "cp div 4096 = s * 64 + p"
    unfolding s_def p_def by (rule div_262144)
  have cp: "cp = ((s * 64 + p) * 64 + q) * 64 + r"
    unfolding d2 [symmetric] d1 [symmetric] r_def by simp
  have r: "r < 64" and q: "q < 64" and p: "p < 64" by (simp_all add: p_def q_def r_def)
  have s: "s \<le> 4" using assms by (simp add: s_def)
  have lo: "s = 0 \<Longrightarrow> 16 \<le> p" using assms(1) cp r q by simp
  have hi: "s = 4 \<Longrightarrow> p \<le> 15" using assms(2) cp r q by simp
  have a: "0xF0 \<le> s + 240" "s + 240 \<le> 0xF4"
    "(if s + 240 = 0xF0 then 0x90 else 0x80) \<le> 128 + p"
    "128 + p \<le> (if s + 240 = 0xF4 then 0x8F else 0xBF)"
    "0x80 \<le> 128 + q" "128 + q \<le> 0xBF" "0x80 \<le> 128 + r" "128 + r \<le> 0xBF"
    using s p q r lo hi by simp_all
  have m: "(s + 240) mod 8 = s" "(128 + p) mod 64 = p" "(128 + q) mod 64 = q"
    "(128 + r) mod 64 = r"
    using s p q r by (simp_all only: mod_lead)
  show ?thesis
    unfolding encode_4 [OF assms(1)] s_def [symmetric] p_def [symmetric] q_def [symmetric]
      r_def [symmetric]
    by (simp only: decode_4 [OF a] m cp)
qed

lemma utf8_roundtrip:
  assumes "scalar cp"
  shows "utf8_run utf8_decoder_init (utf8_encode cp) = (utf8_decoder_init, [cp])"
proof -
  consider "cp \<le> 0x7F" | "0x80 \<le> cp" "cp \<le> 0x7FF" | "0x800 \<le> cp" "cp \<le> 0xFFFF"
    | "0x10000 \<le> cp"
    by linarith
  then show ?thesis
    using assms
    by cases (simp_all add: scalar_def roundtrip_1 roundtrip_2 roundtrip_3 roundtrip_4)
qed

subsection \<open>Decoding in chunks\<close>

lemma utf8_run_append:
  "utf8_run d (xs @ ys) =
     (case utf8_run d xs of (d1, out1) \<Rightarrow>
        (case utf8_run d1 ys of (d2, out2) \<Rightarrow> (d2, out1 @ out2)))"
  by (induction xs arbitrary: d) (simp_all split: prod.splits)

lemma encode_append: "encode (xs @ ys) = encode xs @ encode ys"
  by (simp add: encode_def)

lemma encode_Cons: "encode (cp # cps) = utf8_encode cp @ encode cps"
  by (simp add: encode_def)

lemma utf8_run_encode:
  "list_all scalar cps \<Longrightarrow> utf8_run utf8_decoder_init (encode cps) = (utf8_decoder_init, cps)"
proof (induction cps)
  case Nil
  show ?case by (simp add: encode_def)
next
  case (Cons cp cps)
  then have "scalar cp" and "list_all scalar cps" by simp_all
  then show ?case
    by (simp add: encode_Cons utf8_run_append utf8_roundtrip Cons.IH)
qed

lemma serialize_append:
  "serialize flag (out1 @ out2) =
     (case serialize flag out1 of (flag1, c1) \<Rightarrow>
        (case serialize flag1 out2 of (flag2, c2) \<Rightarrow> (flag2, c1 @ c2)))"
  by (cases out1; cases out2) (simp_all add: serialize_def)

lemma serialize_no_BOM: "no_BOM cps \<Longrightarrow> snd (serialize flag cps) = cps"
  by (cases cps) (simp_all add: serialize_def no_BOM_def)

lemma decode_append:
  "decode t (xs @ ys) =
     (case decode t xs of (t1, c1) \<Rightarrow>
        (case decode t1 ys of (t2, c2) \<Rightarrow> (t2, c1 @ c2)))"
  by (simp add: decode_def utf8_run_append serialize_append split: prod.splits)

lemma concat_relayed:
  "concat (relayed t cs) = encode (snd (decode t (concat cs)))"
proof (induction cs arbitrary: t)
  case Nil
  show ?case by (simp add: decode_def serialize_def encode_def)
next
  case (Cons c cs)
  show ?case
    by (simp add: decode_append Cons.IH encode_append split: prod.splits)
qed

lemma decode_encode:
  assumes "list_all scalar cps" "no_BOM cps" "decoder t = utf8_decoder_init"
  shows "snd (decode t (encode cps)) = cps" "decoder (fst (decode t (encode cps))) = utf8_decoder_init"
  using assms utf8_run_encode [OF assms(1)] serialize_no_BOM [OF assms(2), of "BOM_seen t"]
  by (auto simp add: decode_def split: prod.splits)

lemma relayed_whole_stream:
  assumes "concat cs = encode cps" "list_all scalar cps" "no_BOM cps"
  shows "concat (relayed new_TextDecoder cs) = concat cs"
  using decode_encode(1) [OF assms(2,3), of new_TextDecoder]
  by (simp add: concat_relayed assms(1) new_TextDecoder_def)

lemma relayed_text_chunks:
  assumes "list_all (\<lambda>cps. list_all scalar cps \<and> no_BOM cps) texts"
    and "decoder t = utf8_decoder_init"
  shows "relayed t (map encode texts) = map encode texts"
  using assms
proof (induction texts arbitrary: t)
  case Nil
  show ?case by simp
next
  case (Cons cps texts)
  from Cons.prems have c: "list_all scalar cps" "no_BOM cps" by simp_all
  obtain t' chunk where d: "decode t (encode cps) = (t', chunk)"
    by (cases "decode t (encode cps)")
  from decode_encode [OF c Cons.prems(2)] d
  have "chunk = cps" "decoder t' = utf8_decoder_init" by simp_all
  with Cons.IH [of t'] Cons.prems(1) d show ?case by simp
qed

lemma relayed_text_prefix:
  assumes "list_all (\<lambda>cps. list_all scalar cps \<and> no_BOM cps) texts"
    and "decoder t = utf8_decoder_init"
  shows "take (length texts) (relayed t (map encode texts @ others)) = map encode texts"
  using assms
proof (induction texts arbitrary: t)
  case Nil
  show ?case by simp
next
  case (Cons cps texts)
  from Cons.prems have c: "list_all scalar cps" "no_BOM cps" by simp_all
  obtain t' chunk where d: "decode t (encode cps) = (t', chunk)"
    by (cases "decode t (encode cps)")
  from decode_encode [OF c Cons.prems(2)] d
  have "chunk = cps" "decoder t' = utf8_decoder_init" by simp_all
  with Cons.IH [of t'] Cons.prems(1) d show ?case by simp
qed

subsection \<open>The relay keeps its invariant\<close>

lemma finished_chunks [simp]: "\<not> finished (map Chunk xs)"
  by (cases xs rule: rev_cases) (simp_all add: finished_def)

lemma finished_End [simp]: "finished (obs @ [End])"
  by (simp add: finished_def)

lemma finished_Failure [simp]: "finished (obs @ [Failure e])"
  by (simp add: finished_def)

lemma settle_not_pending: "\<not> pending r \<Longrightarrow> settle r = r"
  by (simp add: settle_def)

lemma pumping_Consume:
  assumes "pumping R en r"
  shows "pumping R en (step Consume r)"
proof -
  from assms obtain dec rest got where
    p: "pump r = Reading dec rest en" and R: "R = got @ queue (controller r) @ relayed dec rest"
    and s: "state (controller r) = Readable" "\<not> closeRequested (controller r)"
    and w: "pending r \<longrightarrow> queue (controller r) = []"
    and o: "seen r = map Chunk got"
    unfolding pumping_def by blast
  show ?thesis
  proof (cases "pending r")
    case True
    then have "step Consume r = r" by simp
    with assms show ?thesis by simp
  next
    case False
    show ?thesis
    proof (cases "queue (controller r)")
      case Nil
      then have st: "step Consume r = r\<lparr> pending := True \<rparr>"
        using s o False by (simp add: reader_read_def)
      show ?thesis
        unfolding pumping_def st
        by (rule exI [of _ dec], rule exI [of _ rest], rule exI [of _ got])
           (simp add: p R Nil s o)
    next
      case (Cons q qs)
      then have st: "step Consume r =
          r\<lparr> controller := (controller r)\<lparr> queue := qs, state := Readable \<rparr>,
             seen := seen r @ [Chunk q] \<rparr>"
        using s o False by (simp add: reader_read_def)
      show ?thesis
        unfolding pumping_def st
        by (rule exI [of _ dec], rule exI [of _ rest], rule exI [of _ "got @ [q]"])
           (simp add: p R Cons s o False)
    qed
  qed
qed

lemma close_in_start_readable:
  assumes "state c = Readable" "\<not> closeRequested c"
  shows "close_in_start c =
    c\<lparr> closeRequested := True, state := (if queue c = [] then Closed else Readable) \<rparr>"
  using assms by (simp add: close_in_start_def controller_close_def)

lemma close_in_start_errored:
  assumes "state c = Errored e"
  shows "close_in_start c = c"
  using assms by (simp add: close_in_start_def controller_close_def controller_error_def)

lemma pumping_Produce:
  assumes "pumping R en r"
  shows "relay_inv R en (step Produce r)"
proof -
  from assms obtain dec rest got where
    p: "pump r = Reading dec rest en" and R: "R = got @ queue (controller r) @ relayed dec rest"
    and s: "state (controller r) = Readable" "\<not> closeRequested (controller r)"
    and w: "pending r \<longrightarrow> queue (controller r) = []"
    and o: "seen r = map Chunk got"
    unfolding pumping_def by blast
  show ?thesis
  proof (cases rest)
    case (Cons v rest')
    obtain dec' chunk where d: "decode dec v = (dec', chunk)" by (cases "decode dec v")
    have st: "step Produce r =
        settle (r\<lparr> pump := Reading dec' rest' en,
           controller := (controller r)\<lparr> queue := queue (controller r) @ [encode chunk] \<rparr> \<rparr>)"
      using s by (simp add: p Cons d controller_enqueue_def)
    have "pumping R en (step Produce r)"
    proof (cases "pending r")
      case False
      show ?thesis
        unfolding pumping_def st
        by (rule exI [of _ dec'], rule exI [of _ rest'], rule exI [of _ got])
           (simp add: R Cons d s o False settle_def)
    next
      case True
      with w have q: "queue (controller r) = []" by simp
      have st': "step Produce r =
          r\<lparr> pump := Reading dec' rest' en, pending := False,
             seen := seen r @ [Chunk (encode chunk)] \<rparr>"
        unfolding st using True q s by (simp add: settle_def reader_read_def)
      show ?thesis
        unfolding pumping_def st'
        by (rule exI [of _ dec'], rule exI [of _ rest'], rule exI [of _ "got @ [encode chunk]"])
           (simp add: R Cons d s o q)
    qed
    then show ?thesis by (simp add: relay_inv_def)
  next
    case Nil
    show ?thesis
    proof (cases en)
      case Done
      have st: "step Produce r =
          settle (r\<lparr> pump := Returned,
             controller := (controller r)\<lparr> closeRequested := True,
               state := (if queue (controller r) = [] then Closed else Readable) \<rparr> \<rparr>)"
        using s by (simp add: p Nil Done close_in_start_readable)
      have "closing R (step Produce r)"
      proof (cases "pending r")
        case False
        show ?thesis
          unfolding closing_def st using R o False by (simp add: Nil settle_def)
      next
        case True
        with w have q: "queue (controller r) = []" by simp
        have st': "step Produce r =
            r\<lparr> pump := Returned,
               controller := (controller r)\<lparr> closeRequested := True, state := Closed \<rparr>,
               pending := False, seen := seen r @ [End] \<rparr>"
          unfolding st using True q by (simp add: settle_def reader_read_def)
        show ?thesis
          unfolding closing_def st' using R o q by (simp add: Nil)
      qed
      then show ?thesis by (simp add: relay_inv_def Done)
    next
      case (ReadError e)
      have st: "step Produce r =
          settle (r\<lparr> pump := Returned,
             controller := (controller r)\<lparr> queue := [], state := Errored e \<rparr> \<rparr>)"
        using s by (simp add: p Nil ReadError controller_error_def close_in_start_errored)
      have "failed R e (step Produce r)"
      proof (cases "pending r")
        case False
        show ?thesis
          unfolding failed_def st using R o False by (auto simp add: Nil settle_def)
      next
        case True
        have st': "step Produce r =
            r\<lparr> pump := Returned,
               controller := (controller r)\<lparr> queue := [], state := Errored e \<rparr>,
               pending := False, seen := seen r @ [Failure e] \<rparr>"
          unfolding st using True by (simp add: settle_def reader_read_def)
        show ?thesis
          unfolding failed_def st' using R o by auto
      qed
      then show ?thesis by (simp add: relay_inv_def ReadError)
    qed
  qed
qed

lemma returned_Produce: "pump r = Returned \<Longrightarrow> \<not> pending r \<Longrightarrow> step Produce r = r"
  by (simp add: settle_def)

lemma closing_step:
  assumes "closing R r"
  shows "closing R (step t r)"
proof (cases t)
  case Produce
  with assms show ?thesis by (simp add: closing_def returned_Produce del: step.simps)
next
  case Consume
  from assms obtain got where
    p: "pump r = Returned" and cr: "closeRequested (controller r)" and w: "\<not> pending r"
    and s: "state (controller r) = (if queue (controller r) = [] then Closed else Readable)"
    and R: "R = got @ queue (controller r)"
    and o: "seen r = map Chunk got \<or> (queue (controller r) = [] \<and> seen r = map Chunk got @ [End])"
    unfolding closing_def by blast
  show ?thesis
  proof (cases "finished (seen r)")
    case True
    with assms Consume show ?thesis by simp
  next
    case False
    with o have o': "seen r = map Chunk got" by auto
    show ?thesis
    proof (cases "queue (controller r)")
      case Nil
      then have st: "step Consume r = r\<lparr> seen := seen r @ [End] \<rparr>"
        using s w False by (simp add: reader_read_def)
      show ?thesis unfolding Consume st closing_def
        using p cr s R o' Nil w by simp
    next
      case (Cons q qs)
      then have st: "step Consume r =
          r\<lparr> controller := (controller r)\<lparr> queue := qs,
                 state := (if qs = [] then Closed else Readable) \<rparr>,
             seen := seen r @ [Chunk q] \<rparr>"
        using s cr w False by (simp add: reader_read_def)
      show ?thesis unfolding Consume st closing_def
        using p cr w
        by (simp, intro exI [of _ "got @ [q]"]) (simp add: R Cons o')
    qed
  qed
qed

lemma failed_step:
  assumes "failed R e r"
  shows "failed R e (step t r)"
proof (cases t)
  case Produce
  with assms show ?thesis by (simp add: failed_def returned_Produce del: step.simps)
next
  case Consume
  from assms obtain got later where
    p: "pump r = Returned" and s: "state (controller r) = Errored e"
    and q: "queue (controller r) = []" and w: "\<not> pending r" and R: "R = got @ later"
    and o: "seen r = map Chunk got \<or> seen r = map Chunk got @ [Failure e]"
    unfolding failed_def by blast
  show ?thesis
  proof (cases "finished (seen r)")
    case True
    with assms Consume show ?thesis by simp
  next
    case False
    with o have o': "seen r = map Chunk got" by auto
    have st: "step Consume r = r\<lparr> seen := seen r @ [Failure e] \<rparr>"
      using s q w False by (simp add: reader_read_def)
    show ?thesis unfolding Consume st failed_def
      using p s q w R o' by auto
  qed
qed

lemma relay_inv_step:
  assumes "relay_inv R en r"
  shows "relay_inv R en (step t r)"
  using assms pumping_Consume [of R en r] pumping_Produce [of R en r]
    closing_step [of R r t] failed_step [of R _ r t]
  by (cases t) (auto simp: relay_inv_def)

lemma relay_inv_fold:
  "relay_inv R en r \<Longrightarrow> relay_inv R en (fold step schedule r)"
  by (induction schedule arbitrary: r) (simp_all add: relay_inv_step del: step.simps)

subsection \<open>The relay ends and the consumer sees it\<close>

lemma length_relayed: "length (relayed t cs) = length cs"
  by (induction cs arbitrary: t) (simp_all split: prod.splits)

lemma todo_pump_step:
  "(case fst (pump_step p c) of Returned \<Rightarrow> 0 | Reading dec rest en \<Rightarrow> Suc (length rest))
     \<le> (case p of Returned \<Rightarrow> 0 | Reading dec rest en \<Rightarrow> Suc (length rest)) - 1"
  by (induction p c rule: pump_step.induct) (simp_all split: prod.splits sum.splits)

lemma pump_settle: "pump (settle r) = pump r"
  by (simp add: settle_def split: prod.splits option.splits)

lemma todo_Produce: "todo (step Produce r) \<le> todo r - 1"
  using todo_pump_step [of "pump r" "controller r"]
  by (cases "pump_step (pump r) (controller r)") (simp add: todo_def pump_settle)

lemma todo_Consume: "todo (step Consume r) = todo r"
  by (simp add: todo_def split: prod.splits option.splits)

lemma todo_step: "todo (step t r) \<le> todo r"
  using todo_Produce [of r] todo_Consume [of r] by (cases t) simp_all

lemma todo_fold: "todo (fold step schedule r) \<le> todo r"
proof (induction schedule arbitrary: r)
  case Nil
  show ?case by simp
next
  case (Cons t ts)
  have "todo (fold step ts (step t r)) \<le> todo (step t r)" by (rule Cons.IH)
  also have "\<dots> \<le> todo r" by (rule todo_step)
  finally show ?case by simp
qed

lemma todo_Produces: "todo (fold step (replicate k Produce) r) \<le> todo r - k"
proof (induction k arbitrary: r)
  case 0
  show ?case by simp
next
  case (Suc k)
  have "todo (fold step (replicate k Produce) (step Produce r)) \<le> todo (step Produce r) - k"
    by (rule Suc.IH)
  also have "\<dots> \<le> todo r - 1 - k" using todo_Produce [of r] by simp
  finally show ?case by simp
qed

lemma todo_0: "todo r = 0 \<Longrightarrow> pump r = Returned"
  by (simp add: todo_def split: pump.splits)

lemma not_pumping: "pump r = Returned \<Longrightarrow> \<not> pumping R en r"
  by (simp add: pumping_def)

lemma pumping_Produce_more:
  assumes "pumping R en r" "1 < todo r"
  shows "pumping R en (step Produce r) \<and> todo (step Produce r) = todo r - 1"
proof -
  from assms(1) obtain dec rest got where
    p: "pump r = Reading dec rest en" and R: "R = got @ queue (controller r) @ relayed dec rest"
    and s: "state (controller r) = Readable" "\<not> closeRequested (controller r)"
    and w: "pending r \<longrightarrow> queue (controller r) = []"
    and o: "seen r = map Chunk got"
    unfolding pumping_def by blast
  from assms(2) p obtain v rest' where Cons: "rest = v # rest'"
    by (cases rest) (simp_all add: todo_def)
  obtain dec' chunk where d: "decode dec v = (dec', chunk)" by (cases "decode dec v")
  have st: "step Produce r =
      settle (r\<lparr> pump := Reading dec' rest' en,
         controller := (controller r)\<lparr> queue := queue (controller r) @ [encode chunk] \<rparr> \<rparr>)"
    using s by (simp add: p Cons d controller_enqueue_def)
  have t: "todo (step Produce r) = todo r - 1"
    unfolding st by (simp add: todo_def pump_settle p Cons)
  have "pumping R en (step Produce r)"
  proof (cases "pending r")
    case False
    show ?thesis
      unfolding pumping_def st
      by (rule exI [of _ dec'], rule exI [of _ rest'], rule exI [of _ got])
         (simp add: R Cons d s o False settle_def)
  next
    case True
    with w have q: "queue (controller r) = []" by simp
    have st': "step Produce r =
        r\<lparr> pump := Reading dec' rest' en, pending := False,
           seen := seen r @ [Chunk (encode chunk)] \<rparr>"
      unfolding st using True q s by (simp add: settle_def reader_read_def)
    show ?thesis
      unfolding pumping_def st'
      by (rule exI [of _ dec'], rule exI [of _ rest'], rule exI [of _ "got @ [encode chunk]"])
         (simp add: R Cons d s o q)
  qed
  with t show ?thesis by simp
qed

lemma pumping_before:
  "pumping R en r \<Longrightarrow> length (filter (\<lambda>t. t = Produce) before) < todo r \<Longrightarrow>
     pumping R en (fold step before r) \<and>
     todo (fold step before r) = todo r - length (filter (\<lambda>t. t = Produce) before)"
proof (induction before arbitrary: r)
  case Nil
  then show ?case by simp
next
  case (Cons t ts)
  show ?case
  proof (cases t)
    case Produce
    with Cons.prems(2) have m: "1 < todo r" by simp
    from pumping_Produce_more [OF Cons.prems(1) m]
    have a: "pumping R en (step Produce r)" and b: "todo (step Produce r) = todo r - 1"
      by simp_all
    from Cons.prems(2) b have "length (filter (\<lambda>t. t = Produce) ts) < todo (step Produce r)"
      by (simp add: Produce)
    from Cons.IH [OF a this] b show ?thesis
      by (simp add: Produce del: step.simps)
  next
    case Consume
    have a: "pumping R en (step Consume r)" using Cons.prems(1) by (rule pumping_Consume)
    from Cons.prems(2) have "length (filter (\<lambda>t. t = Produce) ts) < todo (step Consume r)"
      by (simp add: Consume todo_Consume del: step.simps)
    from Cons.IH [OF a this] show ?thesis
      by (simp add: Consume todo_Consume del: step.simps)
  qed
qed

lemma pumping_at_error:
  assumes "pumping R (ReadError e) r" "todo r = 1"
  shows "failed R e (step Produce r)"
    and "seen (step Produce r) = seen r \<or> seen (step Produce r) = seen r @ [Failure e]"
    and "map Chunk R = seen r @ map Chunk (queue (controller r))"
proof -
  from assms(1) obtain dec rest got where
    p: "pump r = Reading dec rest (ReadError e)"
    and R: "R = got @ queue (controller r) @ relayed dec rest"
    and s: "state (controller r) = Readable" "\<not> closeRequested (controller r)"
    and w: "pending r \<longrightarrow> queue (controller r) = []"
    and o: "seen r = map Chunk got"
    unfolding pumping_def by blast
  from assms(2) p have Nil: "rest = []" by (simp add: todo_def)
  from R o show "map Chunk R = seen r @ map Chunk (queue (controller r))"
    by (simp add: Nil)
  have st: "step Produce r =
      settle (r\<lparr> pump := Returned,
         controller := (controller r)\<lparr> queue := [], state := Errored e \<rparr> \<rparr>)"
    using s by (simp add: p Nil controller_error_def close_in_start_errored)
  have "pump (step Produce r) = Returned"
    unfolding st by (simp add: pump_settle)
  with pumping_Produce [OF assms(1)] show "failed R e (step Produce r)"
    by (simp add: relay_inv_def not_pumping del: step.simps)
  show "seen (step Produce r) = seen r \<or> seen (step Produce r) = seen r @ [Failure e]"
    unfolding st by (simp add: settle_def reader_read_def)
qed

lemma closing_unread: "closing R r \<Longrightarrow> unread r \<le> Suc (length R)"
  by (auto simp: closing_def unread_def)

lemma failed_unread: "failed R e r \<Longrightarrow> unread r \<le> Suc (length R)"
  by (auto simp: failed_def unread_def)

lemma unread_Consume:
  assumes "closing R r \<or> failed R e r"
  shows "unread (step Consume r) \<le> unread r - 1"
proof (cases "finished (seen r)")
  case True
  then show ?thesis by (simp add: unread_def)
next
  case False
  from assms show ?thesis
  proof
    assume "closing R r"
    then show ?thesis using False
      by (cases "queue (controller r)")
         (auto simp: closing_def unread_def reader_read_def finished_def)
  next
    assume "failed R e r"
    then show ?thesis using False
      by (auto simp: failed_def unread_def reader_read_def)
  qed
qed

lemma closing_Consumes:
  "closing R r \<Longrightarrow> unread r \<le> k \<Longrightarrow>
     closing R (fold step (replicate k Consume) r) \<and>
     finished (seen (fold step (replicate k Consume) r))"
proof (induction k arbitrary: r)
  case 0
  then show ?case by (simp add: unread_def split: if_splits)
next
  case (Suc k)
  have "closing R (step Consume r)" using Suc.prems(1) by (rule closing_step)
  moreover have "unread (step Consume r) \<le> k"
    using unread_Consume [of R r] Suc.prems by simp
  ultimately show ?case using Suc.IH [of "step Consume r"] by simp
qed

lemma failed_Consumes:
  "failed R e r \<Longrightarrow> unread r \<le> k \<Longrightarrow>
     failed R e (fold step (replicate k Consume) r) \<and>
     finished (seen (fold step (replicate k Consume) r))"
proof (induction k arbitrary: r)
  case 0
  then show ?case by (simp add: unread_def split: if_splits)
next
  case (Suc k)
  have "failed R e (step Consume r)" using Suc.prems(1) by (rule failed_step)
  moreover have "unread (step Consume r) \<le> k"
    using unread_Consume [of R r e] Suc.prems by simp
  ultimately show ?case using Suc.IH [of "step Consume r"] by simp
qed

lemma closing_finished:
  "closing R r \<Longrightarrow> finished (seen r) \<Longrightarrow> seen r = map Chunk R @ [End]"
  by (auto simp: closing_def)

lemma failed_finished:
  assumes "failed R e r" "finished (seen r)"
  shows "\<exists>k\<le>length R. seen r = map Chunk (take k R) @ [Failure e]"
proof -
  from assms obtain got later where "R = got @ later" "seen r = map Chunk got @ [Failure e]"
    by (auto simp: failed_def)
  then show ?thesis
    by (intro exI [of _ "length got"]) simp
qed

lemma relay_start_Some:
  "relay_start (Some b) =
     \<lparr> pump = Reading new_TextDecoder (chunks b) (ending b), controller = new_controller,
       pending = False, seen = [] \<rparr>"
  by (simp add: relay_start_def start_def)

lemma relay_start_pumping:
  "pumping (relayed new_TextDecoder (chunks b)) (ending b) (relay_start (Some b))"
  unfolding pumping_def relay_start_Some
  by (rule exI [of _ new_TextDecoder], rule exI [of _ "chunks b"], rule exI [of _ "[]"])
     (simp add: new_controller_def)

lemma relay_start_None: "closing [] (relay_start None)"
  by (simp add: relay_start_def start_def closing_def new_controller_def controller_close_def
      close_in_start_def)

lemma completed:
  assumes inv: "relay_inv R en r0" and t: "todo r0 \<le> Suc n" and n: "length R \<le> n"
  shows "(en = Done \<longrightarrow>
            seen (fold step (schedule @ replicate (Suc n) Produce @ replicate (Suc n) Consume) r0)
              = map Chunk R @ [End])
       \<and> (\<forall>e. en = ReadError e \<longrightarrow>
            (\<exists>k\<le>length R.
               seen (fold step (schedule @ replicate (Suc n) Produce @ replicate (Suc n) Consume) r0)
                 = map Chunk (take k R) @ [Failure e]))"
proof -
  define r1 where "r1 = fold step schedule r0"
  define r2 where "r2 = fold step (replicate (Suc n) Produce) r1"
  define r3 where "r3 = fold step (replicate (Suc n) Consume) r2"
  have r3: "fold step (schedule @ replicate (Suc n) Produce @ replicate (Suc n) Consume) r0 = r3"
    by (simp add: r1_def r2_def r3_def)
  have i1: "relay_inv R en r1" unfolding r1_def using inv by (rule relay_inv_fold)
  have "todo r1 \<le> Suc n" unfolding r1_def using todo_fold [of schedule r0] t by simp
  then have "todo r2 = 0" unfolding r2_def using todo_Produces [of "Suc n" r1] by simp
  then have p2: "pump r2 = Returned" by (rule todo_0)
  have i2: "relay_inv R en r2" unfolding r2_def using i1 by (rule relay_inv_fold)
  with p2 have c2: "(en = Done \<and> closing R r2) \<or> (\<exists>e. en = ReadError e \<and> failed R e r2)"
    by (simp add: relay_inv_def not_pumping)
  show ?thesis
  proof (cases en)
    case Done
    with c2 have c: "closing R r2" by simp
    then have "unread r2 \<le> Suc n" using closing_unread [of R r2] n by simp
    with c have "closing R r3 \<and> finished (seen r3)"
      unfolding r3_def by (rule closing_Consumes)
    then have "seen r3 = map Chunk R @ [End]" by (simp add: closing_finished)
    then show ?thesis by (simp only: r3 Done) simp
  next
    case (ReadError e)
    with c2 have c: "failed R e r2" by simp
    then have "unread r2 \<le> Suc n" using failed_unread [of R e r2] n by simp
    with c have "failed R e r3 \<and> finished (seen r3)"
      unfolding r3_def by (rule failed_Consumes)
    then have "\<exists>k\<le>length R. seen r3 = map Chunk (take k R) @ [Failure e]"
      by (simp add: failed_finished)
    then show ?thesis by (simp only: r3 ReadError) simp
  qed
qed

lemma observe_Done:
  "observe schedule (Some \<lparr> chunks = cs, ending = Done \<rparr>)
     = map Chunk (relayed new_TextDecoder cs) @ [End]"
proof -
  let ?b = "\<lparr> chunks = cs, ending = Done \<rparr>"
  have inv: "relay_inv (relayed new_TextDecoder cs) Done (relay_start (Some ?b))"
    using relay_start_pumping [of ?b] by (simp add: relay_inv_def)
  have t: "todo (relay_start (Some ?b)) \<le> Suc (length cs)"
    by (simp add: relay_start_Some todo_def)
  from completed [OF inv t, of schedule] show ?thesis
    by (simp add: observe_def body_length_def length_relayed)
qed

lemma observe_None: "observe schedule None = [End]"
proof -
  have inv: "relay_inv [] Done (relay_start None)"
    using relay_start_None by (simp add: relay_inv_def)
  have t: "todo (relay_start None) \<le> Suc 0"
    by (simp add: relay_start_def start_def todo_def)
  from completed [OF inv t, of schedule] show ?thesis
    by (simp add: observe_def body_length_def)
qed

lemma observe_ReadError:
  "\<exists>k\<le>length cs.
     observe schedule (Some \<lparr> chunks = cs, ending = ReadError e \<rparr>)
       = map Chunk (take k (relayed new_TextDecoder cs)) @ [Failure e]"
proof -
  let ?b = "\<lparr> chunks = cs, ending = ReadError e \<rparr>"
  have inv: "relay_inv (relayed new_TextDecoder cs) (ReadError e) (relay_start (Some ?b))"
    using relay_start_pumping [of ?b] by (simp add: relay_inv_def)
  have t: "todo (relay_start (Some ?b)) \<le> Suc (length cs)"
    by (simp add: relay_start_Some todo_def)
  from completed [OF inv t, of schedule] show ?thesis
    by (simp add: observe_def body_length_def length_relayed)
qed

subsection \<open>A consumer that keeps up\<close>

lemma seen_settle: "prefix (seen r) (seen (settle r))"
  by (simp add: settle_def split: prod.splits option.splits)

lemma seen_step: "prefix (seen r) (seen (step t r))"
proof (cases t)
  case Produce
  obtain p c where pc: "pump_step (pump r) (controller r) = (p, c)"
    by (cases "pump_step (pump r) (controller r)")
  from seen_settle [of "r\<lparr> pump := p, controller := c \<rparr>"] show ?thesis
    by (simp add: Produce pc)
next
  case Consume
  then show ?thesis by (simp split: prod.splits option.splits)
qed

lemma seen_fold: "prefix (seen r) (seen (fold step schedule r))"
proof (induction schedule arbitrary: r)
  case Nil
  show ?case by simp
next
  case (Cons t ts)
  have "prefix (seen r) (seen (step t r))" by (rule seen_step)
  also have "prefix \<dots> (seen (fold step ts (step t r)))" by (rule Cons.IH)
  finally show ?case by simp
qed

lemma eager_turns:
  "\<exists>dec'. fold step (eager (length rest))
       \<lparr> pump = Reading dec rest en, controller = new_controller, pending = False,
         seen = map Chunk got \<rparr>
     = \<lparr> pump = Reading dec' [] en, controller = new_controller, pending = False,
         seen = map Chunk (got @ relayed dec rest) \<rparr>"
proof (induction rest arbitrary: dec got)
  case Nil
  show ?case by (simp add: eager_def)
next
  case (Cons v rest)
  obtain dec1 chunk where d: "decode dec v = (dec1, chunk)" by (cases "decode dec v")
  have 1: "step Consume (step Produce
      \<lparr> pump = Reading dec (v # rest) en, controller = new_controller, pending = False,
         seen = map Chunk got \<rparr>)
      = \<lparr> pump = Reading dec1 rest en, controller = new_controller, pending = False,
          seen = map Chunk (got @ [encode chunk]) \<rparr>"
    by (simp add: d controller_enqueue_def new_controller_def reader_read_def settle_def)
  from Cons.IH [of dec1 "got @ [encode chunk]"] show ?case
    by (simp add: eager_def 1 d del: step.simps)
qed

lemma all_read_before_error:
  assumes "prefix (map Chunk R) obs" "obs = map Chunk (take k R) @ [Failure e]"
  shows "obs = map Chunk R @ [Failure e]"
proof -
  from assms(1) obtain zs where z: "obs = map Chunk R @ zs" by (auto simp: prefix_def)
  have "\<not> k < length R"
  proof
    assume k: "k < length R"
    from z assms(2) have "length (map Chunk (take k R) @ [Failure e]) = length (map Chunk R @ zs)"
      by simp
    with k have "zs = []" by (cases zs) simp_all
    with z assms(2) have "Failure e \<in> set (map Chunk R)"
      by (metis in_set_conv_decomp append_Nil2)
    then show False by auto
  qed
  then have "take k R = R" by simp
  with assms(2) show ?thesis by simp
qed

lemma observe_eager:
  "observe (eager (length cs) @ schedule) (Some \<lparr> chunks = cs, ending = ReadError e \<rparr>)
     = map Chunk (relayed new_TextDecoder cs) @ [Failure e]"
proof -
  let ?b = "\<lparr> chunks = cs, ending = ReadError e \<rparr>"
  let ?R = "relayed new_TextDecoder cs"
  let ?more = "schedule @ replicate (Suc (length cs)) Produce @ replicate (Suc (length cs)) Consume"
  from eager_turns [of cs new_TextDecoder "ReadError e" "[]"] obtain dec' where
    e: "fold step (eager (length cs)) (relay_start (Some ?b))
      = \<lparr> pump = Reading dec' [] (ReadError e), controller = new_controller, pending = False,
          seen = map Chunk ?R \<rparr>"
    by (auto simp: relay_start_Some)
  have o: "observe (eager (length cs) @ schedule) (Some ?b)
      = seen (fold step ?more (fold step (eager (length cs)) (relay_start (Some ?b))))"
    by (simp add: observe_def body_length_def)
  have "prefix (map Chunk ?R) (observe (eager (length cs) @ schedule) (Some ?b))"
    unfolding o e using seen_fold [of "\<lparr> pump = Reading dec' [] (ReadError e),
      controller = new_controller, pending = False, seen = map Chunk ?R \<rparr>" ?more]
    by simp
  moreover from observe_ReadError [of cs "eager (length cs) @ schedule" e] obtain k where
    "observe (eager (length cs) @ schedule) (Some ?b) = map Chunk (take k ?R) @ [Failure e]"
    by blast
  ultimately show ?thesis by (rule all_read_before_error)
qed

lemma delivered_chunks: "delivered (map Chunk xs @ obs) = concat xs @ delivered obs"
  by (induction xs) simp_all

subsection \<open>A consumer that starts late\<close>

lemma POST_streams:
  assumes "Fetch call \<in> set (effects (POST req))"
    and "fetch req call = Inr res" and "ok res"
  shows "response (POST req) = Stream stream_headers (body_stream res)"
proof -
  from POST_fetched [OF assms(1)] obtain k fp v where
    p: "POST req = forward req k fp v" and
    c: "call = fetch_init k (referer req) (mergedPrompt fp) v"
    by blast
  from assms(2) have f: "fetch req (fetch_init k (referer req) (mergedPrompt fp) v) = Inr res"
    by (simp only: c)
  show ?thesis
    by (simp only: p forward_def Let_def f assms(3) sum.case if_True if_False simp_thms
        outcome.simps)
qed

lemma seen_Produce:
  "\<not> pending r \<Longrightarrow> seen (step Produce r) = seen r \<and> \<not> pending (step Produce r)"
  by (simp add: settle_def split: prod.splits)

lemma seen_Produces:
  "\<not> pending r \<Longrightarrow> seen (fold step (replicate k Produce) r) = seen r"
proof (induction k arbitrary: r)
  case 0
  show ?case by simp
next
  case (Suc k)
  from seen_Produce [OF Suc.prems] Suc.IH [of "step Produce r"] show ?case
    by (simp del: step.simps)
qed

lemma failed_seen_step:
  assumes "failed R e r"
  shows "seen (step t r) = seen r \<or> seen (step t r) = seen r @ [Failure e]"
proof (cases t)
  case Produce
  with assms show ?thesis by (simp add: failed_def returned_Produce del: step.simps)
next
  case Consume
  with assms show ?thesis
    by (auto simp: failed_def reader_read_def)
qed

lemma failed_keeps_step:
  assumes "failed R e r" "seen r = s \<or> seen r = s @ [Failure e]"
  shows "failed R e (step t r) \<and> (seen (step t r) = s \<or> seen (step t r) = s @ [Failure e])"
proof -
  have f: "failed R e (step t r)" using assms(1) by (rule failed_step)
  from assms(2) show ?thesis
  proof
    assume "seen r = s"
    with failed_seen_step [OF assms(1), of t] f show ?thesis by auto
  next
    assume s: "seen r = s @ [Failure e]"
    then have "finished (seen r)" by (simp add: finished_def)
    with assms(1) have "step t r = r"
      by (cases t) (simp_all add: failed_def returned_Produce del: step.simps, simp)
    with s f show ?thesis by simp
  qed
qed

lemma failed_keeps_fold:
  "failed R e r \<Longrightarrow> seen r = s \<or> seen r = s @ [Failure e] \<Longrightarrow>
     seen (fold step schedule r) = s \<or> seen (fold step schedule r) = s @ [Failure e]"
proof (induction schedule arbitrary: r)
  case Nil
  then show ?case by simp
next
  case (Cons t ts)
  from failed_keeps_step [OF Cons.prems, of t] Cons.IH [of "step t r"] show ?case
    by (simp del: step.simps)
qed

lemma failed_late_fold:
  "failed R e r \<Longrightarrow> seen r = [] \<or> seen r = [Failure e] \<Longrightarrow>
     seen (fold step schedule r) = [] \<or> seen (fold step schedule r) = [Failure e]"
  using failed_keeps_fold [of R e r "[]" schedule] by simp

lemma observe_late:
  "observe (replicate (Suc (length cs)) Produce @ schedule)
     (Some \<lparr> chunks = cs, ending = ReadError e \<rparr>) = [Failure e]"
proof -
  let ?b = "\<lparr> chunks = cs, ending = ReadError e \<rparr>"
  let ?R = "relayed new_TextDecoder cs"
  let ?more = "schedule @ replicate (Suc (length cs)) Produce @ replicate (Suc (length cs)) Consume"
  define r2 where "r2 = fold step (replicate (Suc (length cs)) Produce) (relay_start (Some ?b))"
  have inv: "relay_inv ?R (ReadError e) (relay_start (Some ?b))"
    using relay_start_pumping [of ?b] by (simp add: relay_inv_def)
  then have i2: "relay_inv ?R (ReadError e) r2" unfolding r2_def by (rule relay_inv_fold)
  have "todo (relay_start (Some ?b)) \<le> Suc (length cs)"
    by (simp add: relay_start_Some todo_def)
  then have "todo r2 = 0"
    unfolding r2_def using todo_Produces [of "Suc (length cs)" "relay_start (Some ?b)"] by simp
  then have "pump r2 = Returned" by (rule todo_0)
  with i2 have f: "failed ?R e r2" by (simp add: relay_inv_def not_pumping)
  have s: "seen r2 = []" unfolding r2_def relay_start_Some by (subst seen_Produces) simp_all
  have o: "observe (replicate (Suc (length cs)) Produce @ schedule) (Some ?b)
      = seen (fold step ?more r2)"
    by (simp add: observe_def body_length_def r2_def del: replicate.simps)
  from failed_late_fold [OF f, of ?more] s
  have "seen (fold step ?more r2) = [] \<or> seen (fold step ?more r2) = [Failure e]" by simp
  moreover from observe_ReadError [of cs "replicate (Suc (length cs)) Produce @ schedule" e]
  have "observe (replicate (Suc (length cs)) Produce @ schedule) (Some ?b) \<noteq> []" by auto
  ultimately show ?thesis unfolding o by blast
qed

lemma encode_ascii_examples:
  "encode [0x61] = [0x61]" "encode [0x62] = [0x62]" "encode [0x62, 0x63] = [0x62, 0x63]"
  "encode [0x64] = [0x64]"
  by (simp_all add: encode_def utf8_encode_def)

text \<open>The turn of the relay in which the read of the upstream fails.\<close>

lemma turn_of_the_error:
  "n < length (filter (\<lambda>t. t = Produce) turns) \<Longrightarrow>
     \<exists>before after. turns = before @ Produce # after \<and>
        length (filter (\<lambda>t. t = Produce) before) = n"
proof (induction turns arbitrary: n)
  case Nil
  then show ?case by simp
next
  case (Cons t ts)
  show ?case
  proof (cases "t = Produce \<and> n = 0")
    case True
    then have "t # ts = [] @ Produce # ts \<and> length (filter (\<lambda>t. t = Produce) []) = n" by simp
    then show ?thesis by blast
  next
    case False
    define m where "m = (if t = Produce then n - 1 else n)"
    from False Cons.prems have "m < length (filter (\<lambda>t. t = Produce) ts)"
      by (auto simp: m_def split: if_splits)
    from Cons.IH [OF this] obtain before after where
      b: "ts = before @ Produce # after" "length (filter (\<lambda>t. t = Produce) before) = m"
      by blast
    from b False have "t # ts = (t # before) @ Produce # after \<and>
        length (filter (\<lambda>t. t = Produce) (t # before)) = n"
      by (auto simp: m_def)
    then show ?thesis by blast
  qed
qed

lemma observe_at_error:
  assumes "schedule @ replicate (Suc (length cs)) Produce = before @ Produce # after"
    and "length (filter (\<lambda>t. t = Produce) before) = length cs"
  shows "observe schedule (Some \<lparr> chunks = cs, ending = ReadError e \<rparr>)
           = seen (fold step before (relay_start (Some \<lparr> chunks = cs, ending = ReadError e \<rparr>)))
             @ [Failure e]"
    and "map Chunk (relayed new_TextDecoder cs)
           = seen (fold step before (relay_start (Some \<lparr> chunks = cs, ending = ReadError e \<rparr>)))
             @ map Chunk (queue (controller
                 (fold step before (relay_start (Some \<lparr> chunks = cs, ending = ReadError e \<rparr>)))))"
proof -
  let ?b = "\<lparr> chunks = cs, ending = ReadError e \<rparr>"
  let ?R = "relayed new_TextDecoder cs"
  define r where "r = fold step before (relay_start (Some ?b))"
  define r' where "r' = step Produce r"
  have p0: "pumping ?R (ReadError e) (relay_start (Some ?b))"
    using relay_start_pumping [of ?b] by simp
  have t0: "todo (relay_start (Some ?b)) = Suc (length cs)"
    by (simp add: relay_start_Some todo_def)
  from assms(2) t0 have "length (filter (\<lambda>t. t = Produce) before) < todo (relay_start (Some ?b))"
    by simp
  from pumping_before [OF p0 this] have p: "pumping ?R (ReadError e) r" and t: "todo r = 1"
    unfolding r_def by (simp_all add: t0 assms(2))
  from pumping_at_error [OF p t] have f: "failed ?R e r'"
    and s: "seen r' = seen r \<or> seen r' = seen r @ [Failure e]"
    and q: "map Chunk ?R = seen r @ map Chunk (queue (controller r))"
    unfolding r'_def by blast+
  from q show "map Chunk ?R = seen (fold step before (relay_start (Some ?b)))
      @ map Chunk (queue (controller (fold step before (relay_start (Some ?b)))))"
    unfolding r_def .
  have "schedule @ replicate (Suc (length cs)) Produce @ replicate (Suc (length cs)) Consume
      = before @ [Produce] @ after @ replicate (Suc (length cs)) Consume"
    using assms(1) by (metis append.assoc append_Cons append_Nil)
  then have "fold step
       (schedule @ replicate (Suc (length cs)) Produce @ replicate (Suc (length cs)) Consume)
       (relay_start (Some ?b))
      = fold step (after @ replicate (Suc (length cs)) Consume) r'"
    unfolding r'_def r_def by (simp only: fold_append fold.simps comp_apply id_apply)
  then have o: "observe schedule (Some ?b)
      = seen (fold step (after @ replicate (Suc (length cs)) Consume) r')"
    unfolding observe_def body_length_def by (simp only: option.case upstream_body.simps)
  from failed_keeps_fold [OF f s, of "after @ replicate (Suc (length cs)) Consume"]
  have c: "observe schedule (Some ?b) = seen r \<or> observe schedule (Some ?b) = seen r @ [Failure e]"
    unfolding o .
  from p obtain got where g: "seen r = map Chunk got"
    unfolding pumping_def by blast
  from observe_ReadError [of cs schedule e] obtain k where
    k: "observe schedule (Some ?b) = map Chunk (take k ?R) @ [Failure e]"
    by blast
  have "observe schedule (Some ?b) \<noteq> seen r"
  proof
    assume "observe schedule (Some ?b) = seen r"
    with k g have "map Chunk got = map Chunk (take k ?R) @ [Failure e]" by simp
    then have "Failure e \<in> set (map Chunk got)" by (metis in_set_conv_decomp)
    then show False by auto
  qed
  with c show "observe schedule (Some ?b)
      = seen (fold step before (relay_start (Some ?b))) @ [Failure e]"
    unfolding r_def by blast
qed

lemma decode_ascii_examples:
  "decode t [0x61] = (\<lparr> decoder = decoder t, BOM_seen = True \<rparr>, [0x61])"
  "decode t [0x62] = (\<lparr> decoder = decoder t, BOM_seen = True \<rparr>, [0x62])"
  if "decoder t = utf8_decoder_init"
  using that by (simp_all add: decode_def utf8_handler_def utf8_lead_def init_fields serialize_def)

lemma read_one_before_error:
  "fold step [Produce, Consume, Produce]
     (relay_start (Some \<lparr> chunks = [[0x61], [0x62]], ending = ReadError terminated \<rparr>))
   = \<lparr> pump = Reading \<lparr> decoder = utf8_decoder_init, BOM_seen = True \<rparr> [] (ReadError terminated),
       controller = \<lparr> state = Readable, closeRequested = False, queue = [[0x62]] \<rparr>,
       pending = False, seen = [Chunk [0x61]] \<rparr>"
  by (simp add: relay_start_Some new_TextDecoder_def decode_ascii_examples encode_ascii_examples
      controller_enqueue_def new_controller_def reader_read_def settle_def finished_def)

subsection \<open>C1: what the consumer observes\<close>

text \<open>
  C1 as stated fails when the upstream read errors while chunks are still in the queue of
  the stream: \<^verbatim>\<open>controller.error\<close> empties the queue. With two chunks relayed and the error
  raised before the consumer has called \<^verbatim>\<open>read()\<close>, the consumer observes the error and
  neither chunk.
\<close>

theorem C1_unread_chunks_are_dropped_on_error:
  "response (POST (example_request [(''videoUrl'', StringValue ''https://example.com/clip.mp4'')]
      (answers \<lparr> status = 200, text_result = Inr [],
                 body_stream = Some \<lparr> chunks = [[0x61], [0x62]],
                                      ending = ReadError terminated \<rparr> \<rparr>)))
     = Stream stream_headers
         (Some \<lparr> chunks = [[0x61], [0x62]], ending = ReadError terminated \<rparr>)
   \<and> relayed new_TextDecoder [[0x61], [0x62]] = [[0x61], [0x62]]
   \<and> observe [Produce, Produce, Produce]
       (Some \<lparr> chunks = [[0x61], [0x62]], ending = ReadError terminated \<rparr>)
     = [Failure terminated]"
proof -
  have a: "response (POST (example_request
      [(''videoUrl'', StringValue ''https://example.com/clip.mp4'')]
      (answers \<lparr> status = 200, text_result = Inr [],
                 body_stream = Some \<lparr> chunks = [[0x61], [0x62]],
                                      ending = ReadError terminated \<rparr> \<rparr>)))
     = Stream stream_headers
         (Some \<lparr> chunks = [[0x61], [0x62]], ending = ReadError terminated \<rparr>)"
    by (simp add: POST_def example_request_def formData_get_def Let_def videoUrl_def
        resolved_def trim_def isWhiteSpace_def forward_def answers_def ok_def)
  have "relayed new_TextDecoder (map encode [[0x61], [0x62]]) = map encode [[0x61], [0x62]]"
    by (rule relayed_text_chunks) (simp_all add: scalar_def no_BOM_def new_TextDecoder_def)
  then have b: "relayed new_TextDecoder [[0x61], [0x62]] = [[0x61], [0x62]]"
    by (simp add: encode_ascii_examples)
  have c: "observe [Produce, Produce, Produce]
       (Some \<lparr> chunks = [[0x61], [0x62]], ending = ReadError terminated \<rparr>)
     = [Failure terminated]"
    using observe_late [of "[[0x61], [0x62]]" "[]" terminated] by simp
  from a b c show ?thesis by (simp only: simp_thms)
qed

text \<open>
  C1 (amended): for every streaming call that has passed the upstream status check, the
  relay enqueues one chunk for every chunk of the upstream body: the encoding of what the
  streaming decoder makes of it, which is the chunk itself as long as it and every chunk
  before it are well-formed UTF-8 text that does not begin with a byte order mark. If the
  upstream body yields N chunks and then ends normally, the consumer observes exactly
  those N relayed chunks in order followed by the end of the stream, whatever the order of
  the turns. If the upstream read errors after N chunks, the error reaches the stream in
  the turn of the relay that follows its first N, and the consumer observes exactly the
  chunks it had read before that turn, in order, followed by the error, never by a normal
  end; the relayed chunks still in the queue at that turn are discarded. So a consumer
  that reads after every turn of the relay observes all N, and one that has not read
  before the error observes none.
\<close>

theorem C1_consumer_observations:
  assumes "Fetch call \<in> set (effects (POST req))"
    and "fetch req call = Inr res" and "ok res"
    and "body_stream res = Some \<lparr> chunks = cs, ending = en \<rparr>"
  shows "response (POST req) = Stream stream_headers (Some \<lparr> chunks = cs, ending = en \<rparr>)
    \<and> length (relayed new_TextDecoder cs) = length cs
    \<and> (cs = map encode texts \<and> list_all (\<lambda>cps. list_all scalar cps \<and> no_BOM cps) texts \<longrightarrow>
          relayed new_TextDecoder cs = cs)
    \<and> (cs = map encode texts @ others
          \<and> list_all (\<lambda>cps. list_all scalar cps \<and> no_BOM cps) texts \<longrightarrow>
          take (length texts) (relayed new_TextDecoder cs) = map encode texts)
    \<and> (en = Done \<longrightarrow>
          observe schedule (Some \<lparr> chunks = cs, ending = en \<rparr>)
            = map Chunk (relayed new_TextDecoder cs) @ [End])
    \<and> (en = ReadError e \<longrightarrow>
          (\<exists>k\<le>length cs.
             observe schedule (Some \<lparr> chunks = cs, ending = en \<rparr>)
               = map Chunk (take k (relayed new_TextDecoder cs)) @ [Failure e])
          \<and> observe (eager (length cs) @ schedule) (Some \<lparr> chunks = cs, ending = en \<rparr>)
               = map Chunk (relayed new_TextDecoder cs) @ [Failure e]
          \<and> observe (replicate (Suc (length cs)) Produce @ schedule)
               (Some \<lparr> chunks = cs, ending = en \<rparr>) = [Failure e]
          \<and> (\<exists>before after.
                schedule @ replicate (Suc (length cs)) Produce = before @ Produce # after
                \<and> length (filter (\<lambda>t. t = Produce) before) = length cs)
          \<and> (schedule @ replicate (Suc (length cs)) Produce = earlier @ Produce # later
                \<and> length (filter (\<lambda>t. t = Produce) earlier) = length cs \<longrightarrow>
              observe schedule (Some \<lparr> chunks = cs, ending = en \<rparr>)
                = seen (fold step earlier (relay_start (Some \<lparr> chunks = cs, ending = en \<rparr>)))
                  @ [Failure e]
              \<and> map Chunk (relayed new_TextDecoder cs)
                = seen (fold step earlier (relay_start (Some \<lparr> chunks = cs, ending = en \<rparr>)))
                  @ map Chunk (queue (controller
                      (fold step earlier
                         (relay_start (Some \<lparr> chunks = cs, ending = en \<rparr>)))))))"
proof -
  have a: "response (POST req) = Stream stream_headers (Some \<lparr> chunks = cs, ending = en \<rparr>)"
    using POST_streams [OF assms(1-3)] assms(4) by simp
  have b: "relayed new_TextDecoder (map encode texts) = map encode texts"
    if "list_all (\<lambda>cps. list_all scalar cps \<and> no_BOM cps) texts"
    using that by (rule relayed_text_chunks) (simp add: new_TextDecoder_def)
  have c: "take (length texts) (relayed new_TextDecoder (map encode texts @ others))
      = map encode texts"
    if "list_all (\<lambda>cps. list_all scalar cps \<and> no_BOM cps) texts"
    using that by (rule relayed_text_prefix) (simp add: new_TextDecoder_def)
  have d: "\<exists>before after.
      schedule @ replicate (Suc (length cs)) Produce = before @ Produce # after
      \<and> length (filter (\<lambda>t. t = Produce) before) = length cs"
    by (rule turn_of_the_error) simp
  have 1: "length (relayed new_TextDecoder cs) = length cs"
    by (rule length_relayed)
  have 2: "cs = map encode texts \<and> list_all (\<lambda>cps. list_all scalar cps \<and> no_BOM cps) texts \<longrightarrow>
          relayed new_TextDecoder cs = cs"
    using b by blast
  have 3: "cs = map encode texts @ others
          \<and> list_all (\<lambda>cps. list_all scalar cps \<and> no_BOM cps) texts \<longrightarrow>
          take (length texts) (relayed new_TextDecoder cs) = map encode texts"
    using c by blast
  have 4: "en = Done \<longrightarrow>
          observe schedule (Some \<lparr> chunks = cs, ending = en \<rparr>)
            = map Chunk (relayed new_TextDecoder cs) @ [End]"
    using observe_Done [of schedule cs] by blast
  have 5: "en = ReadError e \<longrightarrow>
          (\<exists>k\<le>length cs.
             observe schedule (Some \<lparr> chunks = cs, ending = en \<rparr>)
               = map Chunk (take k (relayed new_TextDecoder cs)) @ [Failure e])
          \<and> observe (eager (length cs) @ schedule) (Some \<lparr> chunks = cs, ending = en \<rparr>)
               = map Chunk (relayed new_TextDecoder cs) @ [Failure e]
          \<and> observe (replicate (Suc (length cs)) Produce @ schedule)
               (Some \<lparr> chunks = cs, ending = en \<rparr>) = [Failure e]"
    using observe_ReadError [of cs schedule e] observe_eager [of cs schedule e]
      observe_late [of cs schedule e]
    by blast
  have 6: "en = ReadError e \<longrightarrow>
          (schedule @ replicate (Suc (length cs)) Produce = earlier @ Produce # later
                \<and> length (filter (\<lambda>t. t = Produce) earlier) = length cs \<longrightarrow>
              observe schedule (Some \<lparr> chunks = cs, ending = en \<rparr>)
                = seen (fold step earlier (relay_start (Some \<lparr> chunks = cs, ending = en \<rparr>)))
                  @ [Failure e]
              \<and> map Chunk (relayed new_TextDecoder cs)
                = seen (fold step earlier (relay_start (Some \<lparr> chunks = cs, ending = en \<rparr>)))
                  @ map Chunk (queue (controller
                      (fold step earlier
                         (relay_start (Some \<lparr> chunks = cs, ending = en \<rparr>))))))"
    using observe_at_error [of schedule cs earlier later e] by blast
  from a 1 2 3 4 5 6 d show ?thesis by blast
qed

theorem C1_consumer_observations_witness:
  "observe [Consume, Produce, Produce]
     (Some \<lparr> chunks = [[0x61], [0x62, 0x63], [0x64]], ending = Done \<rparr>)
     = [Chunk [0x61], Chunk [0x62, 0x63], Chunk [0x64], End]
   \<and> observe (eager 2) (Some \<lparr> chunks = [[0x61], [0x62]], ending = ReadError terminated \<rparr>)
     = [Chunk [0x61], Chunk [0x62], Failure terminated]
   \<and> observe [Produce, Consume, Produce, Produce]
       (Some \<lparr> chunks = [[0x61], [0x62]], ending = ReadError terminated \<rparr>)
     = [Chunk [0x61], Failure terminated]
   \<and> queue (controller (fold step [Produce, Consume, Produce]
       (relay_start (Some \<lparr> chunks = [[0x61], [0x62]], ending = ReadError terminated \<rparr>))))
     = [[0x62]]"
proof -
  let ?res = "\<lambda>b. \<lparr> status = 200, text_result = Inr [], body_stream = Some b \<rparr>"
  let ?req = "\<lambda>b. example_request [(''videoUrl'', StringValue ''https://example.com/clip.mp4'')]
      (answers (?res b))"
  let ?call = "fetch_init ''sk-or-test'' None (mergedPrompt []) ''https://example.com/clip.mp4''"
  let ?b = "\<lparr> chunks = [[0x61], [0x62]], ending = ReadError terminated \<rparr>"
  have e: "effects (POST (?req b)) = [ReadFormData, Fetch ?call]" for b
    by (simp add: POST_def example_request_def formData_get_def Let_def videoUrl_def
        resolved_def trim_def isWhiteSpace_def forward_effects)
  have a: "Fetch ?call \<in> set (effects (POST (?req b)))" for b
    by (simp only: e) simp
  have f: "fetch (?req b) ?call = Inr (?res b)" for b
    by (simp add: example_request_def answers_def)
  have k: "ok (?res b)" for b
    by (simp add: ok_def)
  have t1: "[[0x61], [0x62, 0x63], [0x64]] = map encode [[0x61], [0x62, 0x63], [0x64]]"
    by (simp add: encode_ascii_examples)
  have t2: "[[0x61], [0x62]] = map encode [[0x61], [0x62]]"
    by (simp add: encode_ascii_examples)
  have s1: "list_all (\<lambda>cps. list_all scalar cps \<and> no_BOM cps) [[0x61], [0x62, 0x63], [0x64]]"
    by (simp add: scalar_def no_BOM_def)
  have s2: "list_all (\<lambda>cps. list_all scalar cps \<and> no_BOM cps) [[0x61], [0x62]]"
    by (simp add: scalar_def no_BOM_def)
  have g: "eager 2 = eager (length [[0x61 :: byte], [0x62]]) @ []"
    by (simp add: numeral_2_eq_2)
  from C1_consumer_observations [OF a f k, of "\<lparr> chunks = [[0x61], [0x62, 0x63], [0x64]], ending = Done \<rparr>"
      "[[0x61], [0x62, 0x63], [0x64]]" Done "[[0x61], [0x62, 0x63], [0x64]]" "[]"
      "[Consume, Produce, Produce]" terminated "[]" "[]"] t1 s1
  have 1: "observe [Consume, Produce, Produce]
     (Some \<lparr> chunks = [[0x61], [0x62, 0x63], [0x64]], ending = Done \<rparr>)
     = [Chunk [0x61], Chunk [0x62, 0x63], Chunk [0x64], End]"
    by simp
  from C1_consumer_observations [OF a f k, of ?b
      "[[0x61], [0x62]]" "ReadError terminated" "[[0x61], [0x62]]" "[]" "[]" terminated "[]" "[]"]
    t2 s2
  have 2: "observe (eager 2) (Some ?b) = [Chunk [0x61], Chunk [0x62], Failure terminated]"
    unfolding g by simp
  have d: "[Produce, Consume, Produce, Produce] @ replicate (Suc (length [[0x61 :: byte], [0x62]])) Produce
      = [Produce, Consume, Produce] @ Produce # [Produce, Produce, Produce]"
    by (simp add: numeral_3_eq_3)
  have n: "length (filter (\<lambda>t. t = Produce) [Produce, Consume, Produce])
      = length [[0x61 :: byte], [0x62]]"
    by simp
  have bs: "body_stream (?res ?b) = Some \<lparr> chunks = [[0x61], [0x62]], ending = ReadError terminated \<rparr>"
    by simp
  note w = C1_consumer_observations [OF a f k bs,
      of "[[0x61], [0x62]]" "[]" "[Produce, Consume, Produce, Produce]" terminated
        "[Produce, Consume, Produce]" "[Produce, Produce, Produce]",
      THEN conjunct2, THEN conjunct2, THEN conjunct2, THEN conjunct2, THEN conjunct2]
  from w d n have "observe [Produce, Consume, Produce, Produce] (Some ?b)
      = seen (fold step [Produce, Consume, Produce] (relay_start (Some ?b))) @ [Failure terminated]"
    by blast
  then have 3: "observe [Produce, Consume, Produce, Produce] (Some ?b)
      = [Chunk [0x61], Failure terminated]"
    unfolding read_one_before_error by simp
  have 4: "queue (controller (fold step [Produce, Consume, Produce] (relay_start (Some ?b))))
      = [[0x62]]"
    unfolding read_one_before_error by simp
  from 1 2 3 4 show ?thesis by simp
qed

subsection \<open>C2: the bytes delivered\<close>

lemma delivered_all: "delivered (map Chunk xs @ [End]) = concat xs"
  by (simp add: delivered_chunks)

lemma run_FF: "utf8_run utf8_decoder_init [0xFF] = (utf8_decoder_init, [0xFFFD])"
  by (simp add: utf8_handler_def utf8_lead_def init_fields)

lemma run_BOM_A:
  "utf8_run utf8_decoder_init [0xEF, 0xBB, 0xBF, 0x41] = (utf8_decoder_init, [0xFEFF, 0x41])"
  by (simp add: utf8_handler_def utf8_lead_def utf8_decoder_init_def and_15 and_63 push_6_or
      Let_def)

lemma run_A_C3: "snd (utf8_run utf8_decoder_init [0x41, 0xC3]) = [0x41]"
  by (simp add: utf8_handler_def utf8_lead_def utf8_decoder_init_def and_31 Let_def)

lemma encode_examples:
  "encode [0xFFFD] = [0xEF, 0xBF, 0xBD]" "encode [0x41] = [0x41]"
  "encode [0xE9, 0x21] = [0xC3, 0xA9, 0x21]"
  by (simp_all add: encode_def encode_1 encode_2 encode_3)

lemma relayed_one:
  "relayed new_TextDecoder [c] =
     [encode (snd (serialize False (snd (utf8_run utf8_decoder_init c))))]"
  by (simp add: decode_def new_TextDecoder_def split: prod.splits)

lemma relayed_FF: "relayed new_TextDecoder [[0xFF]] = [[0xEF, 0xBF, 0xBD]]"
  by (simp only: relayed_one run_FF snd_conv) (simp add: serialize_def encode_examples)

lemma relayed_BOM_A: "relayed new_TextDecoder [[0xEF, 0xBB, 0xBF, 0x41]] = [[0x41]]"
  by (simp only: relayed_one run_BOM_A snd_conv) (simp add: serialize_def encode_examples)

lemma relayed_A_C3: "relayed new_TextDecoder [[0x41, 0xC3]] = [[0x41]]"
  by (simp only: relayed_one run_A_C3) (simp add: serialize_def encode_examples)

text \<open>
  C2 as stated fails: the relay decodes every chunk as UTF-8 and encodes the text again.
  A byte that is not UTF-8 arrives as the three bytes of \<^verbatim>\<open>U+FFFD\<close>; a byte order mark at
  the start of the stream is dropped; the bytes of a character left unfinished at the end
  of the stream are dropped.
\<close>

theorem C2_bytes_are_decoded_and_encoded_again:
  "response (POST (example_request [(''videoUrl'', StringValue ''https://example.com/clip.mp4'')]
      (answers \<lparr> status = 200, text_result = Inr [],
                 body_stream = Some \<lparr> chunks = [[0xFF]], ending = Done \<rparr> \<rparr>)))
     = Stream stream_headers (Some \<lparr> chunks = [[0xFF]], ending = Done \<rparr>)
   \<and> delivered (observe [] (Some \<lparr> chunks = [[0xFF]], ending = Done \<rparr>)) = [0xEF, 0xBF, 0xBD]
   \<and> delivered (observe [] (Some \<lparr> chunks = [[0xEF, 0xBB, 0xBF, 0x41]], ending = Done \<rparr>)) = [0x41]
   \<and> delivered (observe [] (Some \<lparr> chunks = [[0x41, 0xC3]], ending = Done \<rparr>)) = [0x41]"
proof -
  have "response (POST (example_request [(''videoUrl'', StringValue ''https://example.com/clip.mp4'')]
      (answers \<lparr> status = 200, text_result = Inr [],
                 body_stream = Some \<lparr> chunks = [[0xFF]], ending = Done \<rparr> \<rparr>)))
     = Stream stream_headers (Some \<lparr> chunks = [[0xFF]], ending = Done \<rparr>)"
    by (simp add: POST_def example_request_def formData_get_def Let_def videoUrl_def
        resolved_def trim_def isWhiteSpace_def forward_def answers_def ok_def)
  then show ?thesis
    by (simp only: observe_Done delivered_all relayed_FF relayed_BOM_A relayed_A_C3) simp
qed

text \<open>
  C2 (amended): for every successful streaming call, the bytes delivered to the caller are
  the UTF-8 encoding of what the streaming UTF-8 decoder makes of the bytes received, in
  the order received and whatever the chunk boundaries and the order of the turns; they
  equal the bytes received, byte for byte, whenever those are well-formed UTF-8 (the
  encoding of Unicode scalar values) that does not begin with a byte order mark.
\<close>

theorem C2_well_formed_text_is_relayed_verbatim:
  assumes "Fetch call \<in> set (effects (POST req))"
    and "fetch req call = Inr res" and "ok res"
    and "body_stream res = Some \<lparr> chunks = cs, ending = Done \<rparr>"
  shows "response (POST req) = Stream stream_headers (Some \<lparr> chunks = cs, ending = Done \<rparr>)
    \<and> delivered (observe schedule (Some \<lparr> chunks = cs, ending = Done \<rparr>))
        = encode (snd (decode new_TextDecoder (concat cs)))
    \<and> (concat cs = encode cps \<and> list_all scalar cps \<and> no_BOM cps \<longrightarrow>
         delivered (observe schedule (Some \<lparr> chunks = cs, ending = Done \<rparr>)) = concat cs)"
proof -
  have a: "response (POST req) = Stream stream_headers (Some \<lparr> chunks = cs, ending = Done \<rparr>)"
    using POST_streams [OF assms(1-3)] assms(4) by simp
  have b: "delivered (observe schedule (Some \<lparr> chunks = cs, ending = Done \<rparr>))
      = concat (relayed new_TextDecoder cs)"
    by (simp only: observe_Done delivered_all)
  show ?thesis
    using a relayed_whole_stream [of cs cps]
    by (simp add: b concat_relayed)
qed

theorem C2_well_formed_text_is_relayed_verbatim_witness:
  "delivered (observe [Produce, Consume]
      (Some \<lparr> chunks = [[0xC3], [0xA9, 0x21]], ending = Done \<rparr>)) = [0xC3, 0xA9, 0x21]"
proof -
  let ?b = "\<lparr> chunks = [[0xC3], [0xA9, 0x21]], ending = Done \<rparr>"
  let ?res = "\<lparr> status = 200, text_result = Inr [], body_stream = Some ?b \<rparr>"
  let ?req = "example_request [(''videoUrl'', StringValue ''https://example.com/clip.mp4'')]
      (answers ?res)"
  let ?call = "fetch_init ''sk-or-test'' None (mergedPrompt []) ''https://example.com/clip.mp4''"
  have e: "effects (POST ?req) = [ReadFormData, Fetch ?call]"
    by (simp add: POST_def example_request_def formData_get_def Let_def videoUrl_def
        resolved_def trim_def isWhiteSpace_def forward_effects)
  have a: "Fetch ?call \<in> set (effects (POST ?req))"
    by (simp only: e) simp
  have f: "fetch ?req ?call = Inr ?res"
    by (simp add: example_request_def answers_def)
  have k: "ok ?res"
    by (simp add: ok_def)
  have t: "concat [[0xC3], [0xA9, 0x21]] = encode [0xE9, 0x21]"
    by (simp add: encode_examples)
  have s: "list_all scalar [0xE9, 0x21]" "no_BOM [0xE9, 0x21]"
    by (simp_all add: scalar_def no_BOM_def)
  have bs: "body_stream ?res = Some ?b" by simp
  note c = C2_well_formed_text_is_relayed_verbatim [OF a f k bs, of "[Produce, Consume]" "[0xE9, 0x21]",
      THEN conjunct2, THEN conjunct2]
  from c t s have "delivered (observe [Produce, Consume] (Some ?b)) = concat [[0xC3], [0xA9, 0x21]]"
    by blast
  then show ?thesis by simp
qed

end
